theory Spec2Isabelle
  imports Main "HOL-Library.Word"
begin

unbundle bit_operations_syntax

section \<open>The C types of mu0.c\<close>

text \<open>
  \<^verbatim>\<open>int\<close> and \<^verbatim>\<open>unsigned int\<close> are 32-bit words, \<^verbatim>\<open>long\<close> is a 64-bit word
  (the LP64 data model of the platform whose exit status 139 the source quotes).
  A word is read as \<^verbatim>\<open>unsigned int\<close> with \<open>unat\<close> and as \<^verbatim>\<open>int\<close> with \<open>sint\<close>;
  the conversions between the two keep the bits. Text is a list of bytes.
\<close>

type_synonym c_int = "32 word"
type_synonym c_long = "64 word"

definition LINE_SIZE :: nat where
  "LINE_SIZE = 90"

definition IO_ADDRESS :: c_int where
  "IO_ADDRESS = 0xfff"

definition LABEL_C :: char where
  "LABEL_C = CHR '':''"

definition NUM_LITERAL_C :: char where
  "NUM_LITERAL_C = CHR ''#''"

definition CHAR_LITERAL_C :: char where
  "CHAR_LITERAL_C = CHR ''$''"

definition COMMENT_C :: char where
  "COMMENT_C = CHR '';''"

definition opcode_str :: "string list" where
  "opcode_str = [''LDA'', ''STO'', ''ADD'', ''SUB'', ''JMP'', ''JGE'', ''JNE'', ''STP'']"

datatype state_t = FETCH | EXECUTE

text \<open>
  How a run ends other than by returning: \<^verbatim>\<open>exit(n)\<close> is \<open>Exit n\<close>.
\<close>

datatype error = Exit nat

section \<open>The C library functions the source calls\<close>

definition NUL :: char where
  "NUL = CHR 0x00"

definition NL :: char where
  "NL = CHR 0x0A"

text \<open>\<^verbatim>\<open>isspace\<close> in the C locale: space, and the five controls from tab to carriage return.\<close>

definition isspace :: "char \<Rightarrow> bool" where
  "isspace c = (c = CHR '' '' \<or> c = CHR 0x09 \<or> c = CHR 0x0A \<or> c = CHR 0x0B
                \<or> c = CHR 0x0C \<or> c = CHR 0x0D)"

text \<open>
  A buffer as the string functions see it: the bytes before the first NUL.
  \<open>deref s\<close> is \<^verbatim>\<open>*s\<close> and \<open>char_at s i\<close> is \<^verbatim>\<open>s[i]\<close> for \<open>i\<close> up to the terminator,
  which both read as NUL.
\<close>

definition cstr :: "string \<Rightarrow> string" where
  "cstr s = takeWhile (\<lambda>c. c \<noteq> NUL) s"

definition deref :: "string \<Rightarrow> char" where
  "deref s = (case s of [] \<Rightarrow> NUL | c # _ \<Rightarrow> c)"

definition char_at :: "string \<Rightarrow> nat \<Rightarrow> char" where
  "char_at s i = (if i < length s then s ! i else NUL)"

text \<open>
  \<^verbatim>\<open>fgets(line, n, f)\<close> stores at most \<open>n - 1\<close> bytes and stops behind a newline;
  \<open>fgets_split k s\<close> splits the unread text \<open>s\<close> into the bytes stored (at most \<open>k\<close>)
  and the text left unread.
\<close>

fun fgets_split :: "nat \<Rightarrow> string \<Rightarrow> string \<times> string" where
  "fgets_split 0 s = ([], s)"
| "fgets_split (Suc k) [] = ([], [])"
| "fgets_split (Suc k) (c # s) =
     (if c = NL then ([c], s)
      else (case fgets_split k s of (l, r) \<Rightarrow> (c # l, r)))"

lemma fgets_split_length: "length (snd (fgets_split k s)) \<le> length s"
  by (induction k s rule: fgets_split.induct) (auto split: prod.splits)

lemma fgets_split_shorter: "length (snd (fgets_split (Suc k) (c # s))) < length (c # s)"
  using fgets_split_length [of k s] by (cases "fgets_split k s") auto

text \<open>
  The buffers that the loop \<^verbatim>\<open>while (fgets(line, LINE_SIZE, fin) != NULL)\<close> sees, one
  after the other, until the text is used up. Both passes of the assembler run this loop
  over the same file.
\<close>

function file_lines :: "string \<Rightarrow> string list" where
  "file_lines [] = []"
| "file_lines (c # s) =
     (case fgets_split (LINE_SIZE - 1) (c # s) of (l, r) \<Rightarrow> cstr l # file_lines r)"
  by pat_completeness auto
termination
proof (relation "measure length")
  show "wf (measure length)" by simp
next
  fix c :: char and s l r :: string
  assume lr: "(l, r) = fgets_split (LINE_SIZE - 1) (c # s)"
  have n: "LINE_SIZE - 1 = Suc 88"
    by (simp add: LINE_SIZE_def)
  from lr have "r = snd (fgets_split (LINE_SIZE - 1) (c # s))"
    by (metis snd_conv)
  then have "length r < length (c # s)"
    unfolding n using fgets_split_shorter [of 88 c s] by (simp only:)
  then show "(r, c # s) \<in> measure length"
    by simp
qed

text \<open>
  \<^verbatim>\<open>sscanf(s, "%s", buf)\<close>: white space is skipped, then the bytes up to the next white
  space are stored. When the text ends before any byte is found, nothing is stored
  (\<open>None\<close>) and \<^verbatim>\<open>buf\<close> keeps what it held.
\<close>

definition sscanf_s :: "string \<Rightarrow> string option" where
  "sscanf_s s =
     (let t = takeWhile (\<lambda>c. \<not> isspace c) (dropWhile isspace s)
      in if t = [] then None else Some t)"

text \<open>\<^verbatim>\<open>!strncmp(a, b, n)\<close> on strings without NUL.\<close>

definition strncmp_eq :: "string \<Rightarrow> string \<Rightarrow> nat \<Rightarrow> bool" where
  "strncmp_eq a b n = (take n a = take n b)"

text \<open>The value of a byte as a digit; letters count from ten, in either case.\<close>

definition digit_val :: "char \<Rightarrow> nat option" where
  "digit_val c =
     (let n = (of_char c :: nat) in
      if 48 \<le> n \<and> n \<le> 57 then Some (n - 48)
      else if 97 \<le> n \<and> n \<le> 122 then Some (n - 87)
      else if 65 \<le> n \<and> n \<le> 90 then Some (n - 55)
      else None)"

definition is_digit :: "nat \<Rightarrow> char \<Rightarrow> bool" where
  "is_digit base c = (case digit_val c of None \<Rightarrow> False | Some d \<Rightarrow> d < base)"

text \<open>The number that the longest prefix of digits of the base denotes (0 when it is empty).\<close>

fun digits_value :: "nat \<Rightarrow> nat \<Rightarrow> string \<Rightarrow> nat" where
  "digits_value base acc [] = acc"
| "digits_value base acc (c # s) =
     (case digit_val c of
        None \<Rightarrow> acc
      | Some d \<Rightarrow> if d < base then digits_value base (acc * base + d) s else acc)"

definition LONG_MAX :: int where
  "LONG_MAX = 2 ^ 63 - 1"

definition LONG_MIN :: int where
  "LONG_MIN = - (2 ^ 63)"

text \<open>
  \<^verbatim>\<open>strtol(s, NULL, 0)\<close>: white space, a sign, then the base from the prefix
  (\<^verbatim>\<open>0x\<close> before a hexadecimal digit: 16; a leading \<^verbatim>\<open>0\<close>: 8; else 10) and the longest
  run of digits; no digits give 0, and a value outside \<^verbatim>\<open>long\<close> gives the nearest bound.
\<close>

fun strtol_digits :: "string \<Rightarrow> nat" where
  "strtol_digits (c # x # h # s) =
     (if c = CHR ''0'' \<and> (x = CHR ''x'' \<or> x = CHR ''X'') \<and> is_digit 16 h
      then digits_value 16 0 (h # s)
      else if c = CHR ''0'' then digits_value 8 0 (c # x # h # s)
      else digits_value 10 0 (c # x # h # s))"
| "strtol_digits s =
     (if deref s = CHR ''0'' then digits_value 8 0 s else digits_value 10 0 s)"

fun strtol_signed :: "string \<Rightarrow> int" where
  "strtol_signed [] = 0"
| "strtol_signed (c # s) =
     (if c = CHR ''-'' then - int (strtol_digits s)
      else if c = CHR ''+'' then int (strtol_digits s)
      else int (strtol_digits (c # s)))"

definition strtol_int :: "string \<Rightarrow> int" where
  "strtol_int s = max LONG_MIN (min LONG_MAX (strtol_signed (dropWhile isspace s)))"

definition strtol :: "string \<Rightarrow> c_long" where
  "strtol s = word_of_int (strtol_int s)"

text \<open>
  \<^verbatim>\<open>printf\<close>'s \<^verbatim>\<open>%0wx\<close>: the digits of the unsigned value in base 16, lower case, filled
  with zeros on the left up to the width \<open>w\<close>. The width is a minimum: a longer number
  is printed whole.
\<close>

definition hex_digit :: "nat \<Rightarrow> char" where
  "hex_digit d = ''0123456789abcdef'' ! d"

fun to_hex :: "nat \<Rightarrow> string" where
  "to_hex n = (if n < 16 then [hex_digit n] else to_hex (n div 16) @ [hex_digit (n mod 16)])"

declare to_hex.simps [simp del]

definition printf_x :: "nat \<Rightarrow> nat \<Rightarrow> string" where
  "printf_x w n = replicate (w - length (to_hex n)) (CHR ''0'') @ to_hex n"

section \<open>The label table\<close>

text \<open>
  The linked list, newest node first: \<^verbatim>\<open>add_label\<close> puts the new node in front, and
  \<^verbatim>\<open>get_address\<close> walks from the front and returns the first match, or -1.
\<close>

type_synonym label_table_t = "(string \<times> c_int) list"

definition add_label :: "label_table_t \<Rightarrow> string \<Rightarrow> c_int \<Rightarrow> label_table_t" where
  "add_label table label address = (label, address) # table"

fun get_address :: "label_table_t \<Rightarrow> string \<Rightarrow> c_int" where
  "get_address [] label = - 1"
| "get_address ((l, a) # next) label =
     (if label = l then a else get_address next label)"

section \<open>The assembler\<close>

text \<open>
  The flag \<^verbatim>\<open>verbose\<close> only adds diagnostic lines and is left out. Two buffers of the
  source are read before anything is stored in them, whenever \<^verbatim>\<open>sscanf\<close> finds no
  token: \<^verbatim>\<open>label\<close> in \<^verbatim>\<open>generate_label_table\<close> (declared outside the loop, so it
  keeps the token of the label line before) and \<^verbatim>\<open>addr_s\<close> in \<^verbatim>\<open>process_opcode\<close>
  (a fresh local of every call). C leaves the content of such a buffer unspecified, so
  the string each holds on entry is a parameter of the model.
\<close>

fun generate_label_table_loop ::
    "string list \<Rightarrow> label_table_t \<Rightarrow> string \<Rightarrow> c_int \<Rightarrow> label_table_t \<times> c_int" where
  "generate_label_table_loop [] table label addr = (table, addr)"
| "generate_label_table_loop (line # rest) table label addr =
     (if deref line = LABEL_C then
        (let label' = (case sscanf_s (drop 1 line) of None \<Rightarrow> label | Some t \<Rightarrow> t)
         in generate_label_table_loop rest (add_label table label' addr) label' addr)
      else if \<not> isspace (deref line) \<and> deref line \<noteq> COMMENT_C then
        generate_label_table_loop rest table label (addr + 1)
      else generate_label_table_loop rest table label addr)"

definition generate_label_table :: "string \<Rightarrow> string \<Rightarrow> label_table_t" where
  "generate_label_table label0 fin =
     fst (generate_label_table_loop (file_lines fin) [] label0 0)"

text \<open>The value of the local \<^verbatim>\<open>addr\<close> of \<^verbatim>\<open>generate_label_table\<close> when its loop ends.\<close>

definition generate_label_table_addr :: "string \<Rightarrow> string \<Rightarrow> c_int" where
  "generate_label_table_addr label0 fin =
     snd (generate_label_table_loop (file_lines fin) [] label0 0)"

text \<open>
  \<^verbatim>\<open>process_opcode\<close>, from the loop index \<open>i\<close> on. \<open>Inr (Some t)\<close>: the text \<open>t\<close> was
  printed to \<^verbatim>\<open>fout\<close> and 1 returned; \<open>Inr None\<close>: 0 returned; \<open>Inl (Exit 1)\<close>: the
  label is unknown. The format \<^verbatim>\<open>%01x%03x\<close> prints \<^verbatim>\<open>i\<close> and \<^verbatim>\<open>addr\<close> one after the
  other, each with all its digits.
\<close>

function process_opcode_from ::
    "nat \<Rightarrow> string \<Rightarrow> string \<Rightarrow> label_table_t \<Rightarrow> error + string option" where
  "process_opcode_from i addr_s0 line table =
     (if i < 8 then
        (if strncmp_eq line (opcode_str ! i) 3 then
           (let addr_s = (case sscanf_s (drop 3 line) of None \<Rightarrow> addr_s0 | Some t \<Rightarrow> t)
            in if deref addr_s = LABEL_C then
                 (let addr = get_address table (drop 1 addr_s)
                  in if addr <s 0 then Inl (Exit 1)
                     else Inr (Some (printf_x 1 i @ printf_x 3 (unat addr) @ [NL])))
               else
                 (let addr = (ucast (strtol addr_s) :: c_int)
                  in Inr (Some (printf_x 1 i @ printf_x 3 (unat addr) @ [NL]))))
         else process_opcode_from (Suc i) addr_s0 line table)
      else Inr None)"
  by pat_completeness auto
termination
  by (relation "measure (\<lambda>(i, addr_s0, line, table). 8 - i)") auto

declare process_opcode_from.simps [simp del]

definition process_opcode :: "string \<Rightarrow> string \<Rightarrow> label_table_t \<Rightarrow> error + string option" where
  "process_opcode addr_s0 line table = process_opcode_from 0 addr_s0 line table"

text \<open>\<^verbatim>\<open>(int) c\<close> for a \<^verbatim>\<open>char\<close>, which is signed on this platform.\<close>

definition char_to_int :: "char \<Rightarrow> c_int" where
  "char_to_int c = scast (of_char c :: 8 word)"

text \<open>
  The second loop of \<^verbatim>\<open>assemble\<close>. \<open>fout\<close> holds the texts printed to the output file,
  one for each \<^verbatim>\<open>fprintf\<close>, and \<open>warn\<close> the lines reported as bad. \<open>junk k\<close> is what
  \<^verbatim>\<open>addr_s\<close> holds on entry to \<^verbatim>\<open>process_opcode\<close> for the line with index \<open>k\<close>.
\<close>

fun assemble_loop ::
    "(nat \<Rightarrow> string) \<Rightarrow> nat \<Rightarrow> string list \<Rightarrow> label_table_t \<Rightarrow> string list \<Rightarrow> string list
      \<Rightarrow> error + string list \<times> string list" where
  "assemble_loop junk k [] table fout warn = Inr (fout, warn)"
| "assemble_loop junk k (line # rest) table fout warn =
     (if deref line = LABEL_C \<or> deref line = COMMENT_C \<or> isspace (deref line) then
        assemble_loop junk (Suc k) rest table fout warn
      else if deref line = NUM_LITERAL_C then
        assemble_loop junk (Suc k) rest table
          (fout @ [printf_x 4 (unat (strtol (drop 1 line))) @ [NL]]) warn
      else if deref line = CHAR_LITERAL_C then
        assemble_loop junk (Suc k) rest table
          (fout @ [printf_x 4 (unat (char_to_int (char_at line 1))) @ [NL]]) warn
      else
        (case process_opcode (junk k) line table of
           Inl e \<Rightarrow> Inl e
         | Inr (Some t) \<Rightarrow> assemble_loop junk (Suc k) rest table (fout @ [t]) warn
         | Inr None \<Rightarrow> assemble_loop junk (Suc k) rest table fout (warn @ [line])))"

definition assemble ::
    "string \<Rightarrow> (nat \<Rightarrow> string) \<Rightarrow> string \<Rightarrow> error + string list \<times> string list" where
  "assemble label0 junk fin =
     assemble_loop junk 0 (file_lines fin) (generate_label_table label0 fin) [] []"

text \<open>
  The test by which the second pass skips a line; the first pass counts a line when it
  is not a label line and this test fails.
\<close>

definition ignored_line :: "string \<Rightarrow> bool" where
  "ignored_line line =
     (deref line = LABEL_C \<or> deref line = COMMENT_C \<or> isspace (deref line))"

text \<open>
  The lines of the source text in the words of the specification: each runs up to and
  including its newline, whatever its length; the last one may lack the newline.
\<close>

fun take_line :: "string \<Rightarrow> string \<times> string" where
  "take_line [] = ([], [])"
| "take_line (c # s) =
     (if c = NL then ([c], s) else (case take_line s of (l, r) \<Rightarrow> (c # l, r)))"

lemma take_line_length: "length (snd (take_line s)) \<le> length s"
  by (induction s) (auto split: prod.splits)

function source_lines :: "string \<Rightarrow> string list" where
  "source_lines [] = []"
| "source_lines (c # s) = (case take_line (c # s) of (l, r) \<Rightarrow> l # source_lines r)"
  by pat_completeness auto
termination
proof (relation "measure length")
  show "wf (measure length)" by simp
next
  fix c :: char and s l r :: string
  assume "(l, r) = take_line (c # s)"
  then have "r = s \<or> r = snd (take_line s)"
    by (auto split: if_splits prod.splits)
  then show "(r, c # s) \<in> measure length"
    using take_line_length [of s] by auto
qed

text \<open>
  The kinds of line in the words of the specification: a blank line holds white space
  only (at least the newline), the other kinds are told by the first byte, and an
  opcode line by its first three bytes. A valid line is of one of the six kinds; the
  lines that count are those that are not blank, comment or label lines.
\<close>

definition blank_line :: "string \<Rightarrow> bool" where
  "blank_line line = (line \<noteq> [] \<and> list_all isspace line)"

definition comment_line :: "string \<Rightarrow> bool" where
  "comment_line line = (deref line = COMMENT_C)"

definition label_line :: "string \<Rightarrow> bool" where
  "label_line line = (deref line = LABEL_C)"

definition numeric_literal_line :: "string \<Rightarrow> bool" where
  "numeric_literal_line line = (deref line = NUM_LITERAL_C)"

definition character_literal_line :: "string \<Rightarrow> bool" where
  "character_literal_line line = (deref line = CHAR_LITERAL_C)"

definition mnemonic_line :: "string \<Rightarrow> bool" where
  "mnemonic_line line = (\<exists>i<8. strncmp_eq line (opcode_str ! i) 3)"

definition valid_line :: "string \<Rightarrow> bool" where
  "valid_line line =
     (blank_line line \<or> comment_line line \<or> label_line line \<or> numeric_literal_line line
      \<or> character_literal_line line \<or> mnemonic_line line)"

definition counted_line :: "string \<Rightarrow> bool" where
  "counted_line line = (\<not> blank_line line \<and> \<not> comment_line line \<and> \<not> label_line line)"

section \<open>The emulator\<close>

subsection \<open>Reading the machine code\<close>

text \<open>
  A line of the machine-code file: hexadecimal digits, at least one, and a newline.
\<close>

definition hex_text :: "string \<Rightarrow> bool" where
  "hex_text t = (\<exists>h. t = h @ [NL] \<and> h \<noteq> [] \<and> set h \<subseteq> set ''0123456789abcdef'')"

text \<open>
  \<^verbatim>\<open>fscanf(fin, "%x", p)\<close>: white space, a sign, an optional \<^verbatim>\<open>0x\<close>, then the longest run
  of hexadecimal digits, which must not be empty. The result is the value stored (its
  low 32 bits) and the text left unread; \<open>None\<close> when nothing was converted.
\<close>

fun scan_sign :: "string \<Rightarrow> bool \<times> string" where
  "scan_sign [] = (False, [])"
| "scan_sign (c # s) =
     (if c = CHR ''-'' then (True, s) else if c = CHR ''+'' then (False, s) else (False, c # s))"

fun scan_0x :: "string \<Rightarrow> string" where
  "scan_0x (c # x # s) =
     (if c = CHR ''0'' \<and> (x = CHR ''x'' \<or> x = CHR ''X'') then s else c # x # s)"
| "scan_0x s = s"

definition fscanf_x :: "string \<Rightarrow> (c_int \<times> string) option" where
  "fscanf_x s =
     (case scan_sign (dropWhile isspace s) of
        (neg, s2) \<Rightarrow>
          (let ds = takeWhile (is_digit 16) (scan_0x s2)
           in if ds = [] then None
              else Some (if neg then - of_nat (digits_value 16 0 ds) else of_nat (digits_value 16 0 ds),
                         dropWhile (is_digit 16) (scan_0x s2))))"

lemma scan_sign_length: "length (snd (scan_sign s)) \<le> length s"
  by (cases s) auto

lemma scan_0x_length: "length (scan_0x s) \<le> length s"
  by (induction s rule: scan_0x.induct) auto

lemma fscanf_x_shorter:
  assumes "fscanf_x s = Some (v, r)"
  shows "length r < length s"
proof -
  obtain neg s2 where s2: "scan_sign (dropWhile isspace s) = (neg, s2)"
    by (cases "scan_sign (dropWhile isspace s)")
  let ?t = "scan_0x s2"
  from assms s2 have ne: "takeWhile (is_digit 16) ?t \<noteq> []" and r: "r = dropWhile (is_digit 16) ?t"
    by (auto simp: fscanf_x_def Let_def split: if_splits)
  have "length ?t = length (takeWhile (is_digit 16) ?t) + length (dropWhile (is_digit 16) ?t)"
    by (metis length_append takeWhile_dropWhile_id)
  with ne r have "length r < length ?t"
    by simp
  also have "\<dots> \<le> length s2"
    by (rule scan_0x_length)
  also have "\<dots> \<le> length (dropWhile isspace s)"
    using scan_sign_length [of "dropWhile isspace s"] s2 by simp
  also have "\<dots> \<le> length s"
    by (rule length_dropWhile_le)
  finally show ?thesis .
qed

text \<open>
  The values that the loop \<^verbatim>\<open>while (fscanf(fin, "%x", &operation) == 1)\<close> of
  \<^verbatim>\<open>mem_size\<close> converts. After \<^verbatim>\<open>rewind\<close> the loop of \<^verbatim>\<open>read_machine_code\<close> converts the
  same values again, as many as \<^verbatim>\<open>mem_size\<close> counted, and stores them.
\<close>

function scan_words :: "string \<Rightarrow> c_int list" where
  "scan_words s = (case fscanf_x s of None \<Rightarrow> [] | Some (v, r) \<Rightarrow> v # scan_words r)"
  by pat_completeness auto
termination
  by (relation "measure length") (auto simp: fscanf_x_shorter)

declare scan_words.simps [simp del]

definition mem_size :: "string \<Rightarrow> c_int" where
  "mem_size fin = of_nat (length (scan_words fin))"

text \<open>
  \<^verbatim>\<open>memory_t\<close>. The pointer \<^verbatim>\<open>data\<close> is the function from an index to the word that
  \<^verbatim>\<open>data[index]\<close> designates: the \<^verbatim>\<open>size\<close> words of the allocated array, and behind them
  whatever the heap holds there (\<open>heap\<close> below), which C does not specify.
\<close>

record memory_t =
  size_m :: c_int
  data :: "nat \<Rightarrow> c_int"

definition read_machine_code :: "(nat \<Rightarrow> c_int) \<Rightarrow> string \<Rightarrow> memory_t" where
  "read_machine_code heap fin =
     (let ws = scan_words fin
      in \<lparr>size_m = mem_size fin, data = (\<lambda>i. if i < length ws then ws ! i else heap i)\<rparr>)"

subsection \<open>Memory and memory-mapped input and output\<close>

text \<open>The console: the bytes not yet read from the input, and the bytes written.\<close>

record console =
  stdin :: "char list"
  stdout :: "char list"

definition get_opcode :: "c_int \<Rightarrow> c_int" where
  "get_opcode x = signed_drop_bit 12 x"

definition get_operand :: "c_int \<Rightarrow> c_int" where
  "get_operand x = x AND 0xfff"

text \<open>
  \<^verbatim>\<open>get\<close>. \<open>c0\<close> is what the local \<^verbatim>\<open>c\<close> holds on entry, which is what it still holds
  when \<^verbatim>\<open>scanf\<close> finds the input at its end. The comparison \<^verbatim>\<open>address > mem->size\<close> is
  unsigned, as \<^verbatim>\<open>size\<close> is.
\<close>

definition get :: "char \<Rightarrow> memory_t \<Rightarrow> c_int \<Rightarrow> console \<Rightarrow> error + c_int \<times> console" where
  "get c0 mem address con =
     (if address = IO_ADDRESS then
        (case stdin con of
           [] \<Rightarrow> Inr (char_to_int c0, con)
         | c # rest \<Rightarrow> Inr (char_to_int c, con\<lparr>stdin := rest\<rparr>))
      else if address > size_m mem then Inl (Exit 139)
      else Inr (data mem (unat address), con))"

text \<open>\<^verbatim>\<open>set\<close>; \<^verbatim>\<open>printf("%c", value)\<close> writes the low byte of the value.\<close>

definition set_mem ::
    "memory_t \<Rightarrow> c_int \<Rightarrow> c_int \<Rightarrow> console \<Rightarrow> error + memory_t \<times> console" where
  "set_mem mem address v con =
     (if address = IO_ADDRESS then
        Inr (mem, con\<lparr>stdout := stdout con @ [char_of (unat v)]\<rparr>)
      else if address > size_m mem then Inl (Exit 139)
      else Inr (mem\<lparr>data := (data mem)(unat address := v)\<rparr>, con))"

subsection \<open>The fetch-execute loop\<close>

text \<open>\<^verbatim>\<open>enum opcode_t\<close>: the values that the \<^verbatim>\<open>switch\<close> compares with.\<close>

definition LDA :: c_int where "LDA = 0"
definition STO :: c_int where "STO = 1"
definition ADD :: c_int where "ADD = 2"
definition SUB :: c_int where "SUB = 3"
definition JMP :: c_int where "JMP = 4"
definition JGE :: c_int where "JGE = 5"
definition JNE :: c_int where "JNE = 6"
definition STP :: c_int where "STP = 7"

text \<open>
  The locals of \<^verbatim>\<open>emulate\<close>, with the memory and the console they work on. Arithmetic
  on \<^verbatim>\<open>int\<close> wraps around here, as the machine's does.
\<close>

record emu =
  PC :: c_int
  ACC :: c_int
  IR :: c_int
  state :: state_t
  done_f :: bool
  steps :: c_int
  mem :: memory_t
  con :: console

text \<open>\<^verbatim>\<open>PC = operand; IR = get(mem, PC++);\<close> as the three jumps do it.\<close>

definition jump :: "char \<Rightarrow> emu \<Rightarrow> error + emu" where
  "jump c0 s =
     (case get c0 (mem s) (get_operand (IR s)) (con s) of
        Inl e \<Rightarrow> Inl e
      | Inr (x, con') \<Rightarrow> Inr (s\<lparr>PC := get_operand (IR s) + 1, IR := x, con := con'\<rparr>))"

text \<open>
  One round of the \<^verbatim>\<open>while\<close> loop of \<^verbatim>\<open>emulate\<close>, after \<^verbatim>\<open>steps++\<close>. An opcode that
  no \<^verbatim>\<open>case\<close> names changes nothing.
\<close>

definition execute :: "char \<Rightarrow> emu \<Rightarrow> error + emu" where
  "execute c0 s =
     (if state s = FETCH then
        (case get c0 (mem s) (PC s) (con s) of
           Inl e \<Rightarrow> Inl e
         | Inr (x, con') \<Rightarrow> Inr (s\<lparr>IR := x, PC := PC s + 1, state := EXECUTE, con := con'\<rparr>))
      else if get_opcode (IR s) = LDA then
        (case get c0 (mem s) (get_operand (IR s)) (con s) of
           Inl e \<Rightarrow> Inl e
         | Inr (x, con') \<Rightarrow> Inr (s\<lparr>ACC := x, state := FETCH, con := con'\<rparr>))
      else if get_opcode (IR s) = STO then
        (case set_mem (mem s) (get_operand (IR s)) (ACC s) (con s) of
           Inl e \<Rightarrow> Inl e
         | Inr (mem', con') \<Rightarrow> Inr (s\<lparr>state := FETCH, mem := mem', con := con'\<rparr>))
      else if get_opcode (IR s) = ADD then
        (case get c0 (mem s) (get_operand (IR s)) (con s) of
           Inl e \<Rightarrow> Inl e
         | Inr (x, con') \<Rightarrow> Inr (s\<lparr>ACC := ACC s + x, state := FETCH, con := con'\<rparr>))
      else if get_opcode (IR s) = SUB then
        (case get c0 (mem s) (get_operand (IR s)) (con s) of
           Inl e \<Rightarrow> Inl e
         | Inr (x, con') \<Rightarrow> Inr (s\<lparr>ACC := ACC s - x, state := FETCH, con := con'\<rparr>))
      else if get_opcode (IR s) = JMP then jump c0 s
      else if get_opcode (IR s) = JGE then
        (if 0 \<le>s ACC s then jump c0 s else Inr (s\<lparr>state := FETCH\<rparr>))
      else if get_opcode (IR s) = JNE then
        (if ACC s \<noteq> 0 then jump c0 s else Inr (s\<lparr>state := FETCH\<rparr>))
      else if get_opcode (IR s) = STP then Inr (s\<lparr>done_f := True\<rparr>)
      else Inr s)"

definition emulate_step :: "char \<Rightarrow> emu \<Rightarrow> error + emu" where
  "emulate_step c0 s = execute c0 (s\<lparr>steps := steps s + 1\<rparr>)"

text \<open>
  The loop itself, which need not end (\<open>None\<close>): an opcode above 7 keeps the machine
  in \<^verbatim>\<open>EXECUTE\<close> for ever when there is no limit. \<open>junk k\<close> is what the local \<^verbatim>\<open>c\<close> of
  \<^verbatim>\<open>get\<close> holds on entry in the round that starts with \<^verbatim>\<open>steps\<close> = \<open>k\<close>.
\<close>

partial_function (option) emulate_loop ::
    "(nat \<Rightarrow> char) \<Rightarrow> c_int \<Rightarrow> emu \<Rightarrow> (error + emu) option" where
  "emulate_loop junk limit s =
     (if \<not> done_f s \<and> (limit \<le>s 0 \<or> steps s <s limit) then
        (case emulate_step (junk (unat (steps s))) s of
           Inl e \<Rightarrow> Some (Inl e)
         | Inr s' \<Rightarrow> emulate_loop junk limit s')
      else Some (Inr s))"

definition emulate ::
    "(nat \<Rightarrow> char) \<Rightarrow> memory_t \<Rightarrow> c_int \<Rightarrow> console \<Rightarrow> (error + emu) option" where
  "emulate junk m limit c =
     emulate_loop junk limit
       \<lparr>PC = 0, ACC = 0, IR = 0, state = FETCH, done_f = False, steps = 0, mem = m, con = c\<rparr>"

section \<open>Properties of the label table\<close>




lemma generate_label_table_twice:
  "generate_label_table label0 '':x\<newline>STP\<newline>:x\<newline>STP\<newline>'' = [(''x'', 1), (''x'', 0)] \<and>
   get_address (generate_label_table label0 '':x\<newline>STP\<newline>:x\<newline>STP\<newline>'') ''x'' = 1"
  by (simp add: generate_label_table_def LINE_SIZE_def eval_nat_numeral cstr_def NUL_def NL_def
      deref_def LABEL_C_def COMMENT_C_def sscanf_s_def isspace_def add_label_def)

text \<open>
  The same in the first pass: after a label line that names a label, and later lines
  none of which names that label again, the name resolves to the value that the address
  counter had when the line was read, whatever the lines before it defined.
\<close>

lemma generate_label_table_loop_later:
  assumes "\<forall>l \<in> set later. deref l = LABEL_C \<longrightarrow> (\<exists>t. sscanf_s (drop 1 l) = Some t \<and> t \<noteq> name)"
  shows "get_address (fst (generate_label_table_loop later table label addr)) name =
           get_address table name"
  using assms
proof (induction later arbitrary: table label addr)
  case Nil
  show ?case by simp
next
  case (Cons l later)
  show ?case
  proof (cases "deref l = LABEL_C")
    case True
    with Cons.prems obtain t where "sscanf_s (drop 1 l) = Some t" and "t \<noteq> name"
      by auto
    with True Cons.IH [of "add_label table t addr" t addr] Cons.prems show ?thesis
      by (simp add: add_label_def)
  next
    case False
    with Cons.IH [of table label] Cons.prems show ?thesis
      by simp
  qed
qed

lemma first_pass_last_definition:
  assumes "deref line = LABEL_C" and "sscanf_s (drop 1 line) = Some name"
    and "\<forall>l \<in> set later. deref l = LABEL_C \<longrightarrow> (\<exists>t. sscanf_s (drop 1 l) = Some t \<and> t \<noteq> name)"
  shows "get_address
           (fst (generate_label_table_loop (earlier @ line # later) table label addr)) name =
         snd (generate_label_table_loop earlier table label addr)"
proof (induction earlier arbitrary: table label addr)
  case Nil
  from assms(1,2) have "generate_label_table_loop (line # later) table label addr =
      generate_label_table_loop later (add_label table name addr) name addr"
    by simp
  with generate_label_table_loop_later [OF assms(3)] show ?case
    by (simp add: add_label_def)
next
  case (Cons e earlier)
  then show ?case
    by (simp add: Let_def)
qed

section \<open>Properties of the memory\<close>

text \<open>
  Every address above the size, the reserved one apart, ends the run with status 139,
  for reading and for writing, and nothing is stored.
\<close>

lemma get_set_above_size:
  assumes "address \<noteq> IO_ADDRESS" and "size_m m < address"
  shows "get c0 m address c = Inl (Exit 139)" and "set_mem m address v c = Inl (Exit 139)"
  using assms by (simp_all add: get_def set_mem_def)

text \<open>
  Claim C4 says that every address outside \<open>[0, size)\<close> other than 4095 is fatal for
  reading and for writing. The address equal to the size is outside that range, and the
  test \<^verbatim>\<open>address > mem->size\<close> lets it pass: for the one-word program \<^verbatim>\<open>7000\<close>, whose
  size is 1, reading address 1 returns the word that lies behind the array, and writing
  address 1 overwrites that word.
\<close>

theorem address_equal_size_not_fatal:
  "size_m (read_machine_code heap ''7000\<newline>'') = 1 \<and>
   get c0 (read_machine_code heap ''7000\<newline>'') 1 c = Inr (heap 1, c) \<and>
   set_mem (read_machine_code heap ''7000\<newline>'') 1 v c =
     Inr ((read_machine_code heap ''7000\<newline>'')
            \<lparr>data := (data (read_machine_code heap ''7000\<newline>''))(1 := v)\<rparr>, c)"
proof -
  have "scan_words ''7000\<newline>'' = [0x7000]"
    by (simp add: scan_words.simps fscanf_x_def isspace_def is_digit_def digit_val_def)
  then show ?thesis
    by (simp add: read_machine_code_def mem_size_def get_def set_mem_def IO_ADDRESS_def)
qed

text \<open>
  Claim C7. At the reserved address 4095 neither \<^verbatim>\<open>get\<close> nor \<^verbatim>\<open>set\<close> looks at the size
  or at the array, whatever they are: \<^verbatim>\<open>get\<close> returns the code of the next byte of the
  console input and takes that byte off the input (at the end of the input, what its
  local \<^verbatim>\<open>c\<close> held), \<^verbatim>\<open>set\<close> appends the low byte of the value to the console
  output, the memory stays as it was, and any other memory gives the same result.
\<close>

theorem reserved_address_bypasses_memory:
  "get c0 m IO_ADDRESS c =
     Inr (char_to_int (case stdin c of [] \<Rightarrow> c0 | x # _ \<Rightarrow> x), c\<lparr>stdin := tl (stdin c)\<rparr>) \<and>
   set_mem m IO_ADDRESS v c = Inr (m, c\<lparr>stdout := stdout c @ [char_of (unat v)]\<rparr>) \<and>
   get c0 m' IO_ADDRESS c = get c0 m IO_ADDRESS c \<and>
   map_sum id snd (set_mem m' IO_ADDRESS v c) = map_sum id snd (set_mem m IO_ADDRESS v c) \<and>
   IO_ADDRESS = 4095"
  by (simp add: get_def set_mem_def IO_ADDRESS_def split: list.splits)

theorem reserved_address_bypasses_memory_witness:
  "get CHR ''?'' \<lparr>size_m = 0, data = \<lambda>_. 0\<rparr> 4095 \<lparr>stdin = ''A'', stdout = []\<rparr> =
     Inr (65, \<lparr>stdin = [], stdout = []\<rparr>) \<and>
   set_mem \<lparr>size_m = 0, data = \<lambda>_. 0\<rparr> 4095 0x141 \<lparr>stdin = ''A'', stdout = []\<rparr> =
     Inr (\<lparr>size_m = 0, data = \<lambda>_. 0\<rparr>, \<lparr>stdin = ''A'', stdout = ''A''\<rparr>)"
  using reserved_address_bypasses_memory
    [of "CHR ''?''" "\<lparr>size_m = 0, data = \<lambda>_. 0\<rparr>" "\<lparr>stdin = ''A'', stdout = []\<rparr>" "0x141"]
  by (simp add: IO_ADDRESS_def char_to_int_def char_of_def bit_iff_odd)

text \<open>
  Claim C10. At an address below the size that is not the reserved one, \<^verbatim>\<open>set\<close> stores
  the value as it is, all 32 bits of it, changes no other word and not the size, and a
  \<^verbatim>\<open>get\<close> at that address then returns the value, also a negative one and one from
  \<open>2\<^sup>1\<^sup>6\<close> on.
\<close>

theorem set_stores_value_unmasked:
  assumes "address \<noteq> IO_ADDRESS" and "address < size_m m"
  shows "\<exists>m'. set_mem m address v c = Inr (m', c) \<and>
           size_m m' = size_m m \<and>
           data m' (unat address) = v \<and>
           (\<forall>i. i \<noteq> unat address \<longrightarrow> data m' i = data m i) \<and>
           get c0 m' address c = Inr (v, c)"
  using assms by (simp add: get_def set_mem_def)

theorem set_stores_value_unmasked_witness:
  "(1 :: c_int) \<noteq> IO_ADDRESS \<and> (1 :: c_int) < size_m \<lparr>size_m = 3, data = \<lambda>_. 0\<rparr> \<and>
   set_mem \<lparr>size_m = 3, data = \<lambda>_. 0\<rparr> 1 (- 70000) \<lparr>stdin = [], stdout = []\<rparr> =
     Inr (\<lparr>size_m = 3, data = (\<lambda>_. 0)(1 := - 70000)\<rparr>, \<lparr>stdin = [], stdout = []\<rparr>) \<and>
   get CHR ''?'' \<lparr>size_m = 3, data = (\<lambda>_. 0)(1 := - 70000)\<rparr> 1 \<lparr>stdin = [], stdout = []\<rparr> =
     Inr (- 70000, \<lparr>stdin = [], stdout = []\<rparr>) \<and>
   sint (- 70000 :: c_int) = - 70000"
  using set_stores_value_unmasked
    [of 1 "\<lparr>size_m = 3, data = \<lambda>_. 0\<rparr>" "- 70000" "\<lparr>stdin = [], stdout = []\<rparr>" "CHR ''?''"]
  by (simp add: IO_ADDRESS_def get_def set_mem_def)

section \<open>Properties of the fetch-execute loop\<close>

lemmas opcode_defs = LDA_def STO_def ADD_def SUB_def JMP_def JGE_def JNE_def STP_def

text \<open>
  Claim C9. In a round that starts in \<^verbatim>\<open>EXECUTE\<close> with the opcode \<^verbatim>\<open>JGE\<close>, the machine
  jumps when the accumulator, read as a signed number, is at least 0: it reads the word
  at the operand into \<^verbatim>\<open>IR\<close>, sets \<^verbatim>\<open>PC\<close> behind the operand and stays in
  \<^verbatim>\<open>EXECUTE\<close> (or ends where that read is fatal). When the accumulator is negative it
  goes to \<^verbatim>\<open>FETCH\<close> and changes nothing else but the step count. So it is back in
  \<^verbatim>\<open>FETCH\<close> after the round exactly when the accumulator is negative. The same holds
  for \<^verbatim>\<open>JNE\<close>, which jumps when the accumulator is not 0.
\<close>

theorem conditional_jumps:
  assumes "state s = EXECUTE"
  shows "(get_opcode (IR s) = JGE \<longrightarrow>
            emulate_step c0 s =
              (if 0 \<le> sint (ACC s) then
                 (case get c0 (mem s) (get_operand (IR s)) (con s) of
                    Inl e \<Rightarrow> Inl e
                  | Inr (x, con') \<Rightarrow>
                      Inr (s\<lparr>steps := steps s + 1, PC := get_operand (IR s) + 1, IR := x,
                             con := con'\<rparr>))
               else Inr (s\<lparr>steps := steps s + 1, state := FETCH\<rparr>)) \<and>
            ((\<exists>s'. emulate_step c0 s = Inr s' \<and> state s' = FETCH) \<longleftrightarrow> sint (ACC s) < 0)) \<and>
         (get_opcode (IR s) = JNE \<longrightarrow>
            emulate_step c0 s =
              (if ACC s \<noteq> 0 then
                 (case get c0 (mem s) (get_operand (IR s)) (con s) of
                    Inl e \<Rightarrow> Inl e
                  | Inr (x, con') \<Rightarrow>
                      Inr (s\<lparr>steps := steps s + 1, PC := get_operand (IR s) + 1, IR := x,
                             con := con'\<rparr>))
               else Inr (s\<lparr>steps := steps s + 1, state := FETCH\<rparr>)) \<and>
            ((\<exists>s'. emulate_step c0 s = Inr s' \<and> state s' = FETCH) \<longleftrightarrow> ACC s = 0))"
proof (intro conjI impI)
  assume op: "get_opcode (IR s) = JGE"
  show step: "emulate_step c0 s =
      (if 0 \<le> sint (ACC s) then
         (case get c0 (mem s) (get_operand (IR s)) (con s) of
            Inl e \<Rightarrow> Inl e
          | Inr (x, con') \<Rightarrow>
              Inr (s\<lparr>steps := steps s + 1, PC := get_operand (IR s) + 1, IR := x, con := con'\<rparr>))
       else Inr (s\<lparr>steps := steps s + 1, state := FETCH\<rparr>))"
    using assms op
    by (simp add: emulate_step_def execute_def jump_def opcode_defs word_sle_eq
        split: sum.splits prod.splits)
  show "(\<exists>s'. emulate_step c0 s = Inr s' \<and> state s' = FETCH) \<longleftrightarrow> sint (ACC s) < 0"
    unfolding step using assms by (auto split: sum.splits prod.splits)
next
  assume op: "get_opcode (IR s) = JNE"
  show step: "emulate_step c0 s =
      (if ACC s \<noteq> 0 then
         (case get c0 (mem s) (get_operand (IR s)) (con s) of
            Inl e \<Rightarrow> Inl e
          | Inr (x, con') \<Rightarrow>
              Inr (s\<lparr>steps := steps s + 1, PC := get_operand (IR s) + 1, IR := x, con := con'\<rparr>))
       else Inr (s\<lparr>steps := steps s + 1, state := FETCH\<rparr>))"
    using assms op
    by (simp add: emulate_step_def execute_def jump_def opcode_defs
        split: sum.splits prod.splits)
  show "(\<exists>s'. emulate_step c0 s = Inr s' \<and> state s' = FETCH) \<longleftrightarrow> ACC s = 0"
    unfolding step using assms by (auto split: sum.splits prod.splits)
qed

theorem conditional_jumps_witness:
  "get_opcode 0x5002 = JGE \<and> get_opcode 0x6002 = JNE \<and> get_operand 0x5002 = 2 \<and>
   emulate_step CHR ''?''
     \<lparr>PC = 1, ACC = - 1, IR = 0x5002, state = EXECUTE, done_f = False, steps = 1,
        mem = \<lparr>size_m = 3, data = \<lambda>i. if i < 3 then [0x5002, 0x7000, 0x6002] ! i else 0\<rparr>,
        con = \<lparr>stdin = [], stdout = []\<rparr>\<rparr> =
   Inr \<lparr>PC = 1, ACC = - 1, IR = 0x5002, state = FETCH, done_f = False, steps = 2,
        mem = \<lparr>size_m = 3, data = \<lambda>i. if i < 3 then [0x5002, 0x7000, 0x6002] ! i else 0\<rparr>,
        con = \<lparr>stdin = [], stdout = []\<rparr>\<rparr> \<and>
   emulate_step CHR ''?''
     \<lparr>PC = 1, ACC = 0, IR = 0x5002, state = EXECUTE, done_f = False, steps = 1,
        mem = \<lparr>size_m = 3, data = \<lambda>i. if i < 3 then [0x5002, 0x7000, 0x6002] ! i else 0\<rparr>,
        con = \<lparr>stdin = [], stdout = []\<rparr>\<rparr> =
   Inr \<lparr>PC = 3, ACC = 0, IR = 0x6002, state = EXECUTE, done_f = False, steps = 2,
        mem = \<lparr>size_m = 3, data = \<lambda>i. if i < 3 then [0x5002, 0x7000, 0x6002] ! i else 0\<rparr>,
        con = \<lparr>stdin = [], stdout = []\<rparr>\<rparr> \<and>
   emulate_step CHR ''?''
     \<lparr>PC = 1, ACC = 5, IR = 0x5002, state = EXECUTE, done_f = False, steps = 1,
        mem = \<lparr>size_m = 3, data = \<lambda>i. if i < 3 then [0x5002, 0x7000, 0x6002] ! i else 0\<rparr>,
        con = \<lparr>stdin = [], stdout = []\<rparr>\<rparr> =
   Inr \<lparr>PC = 3, ACC = 5, IR = 0x6002, state = EXECUTE, done_f = False, steps = 2,
        mem = \<lparr>size_m = 3, data = \<lambda>i. if i < 3 then [0x5002, 0x7000, 0x6002] ! i else 0\<rparr>,
        con = \<lparr>stdin = [], stdout = []\<rparr>\<rparr> \<and>
   emulate_step CHR ''?''
     \<lparr>PC = 1, ACC = 0, IR = 0x6002, state = EXECUTE, done_f = False, steps = 1,
        mem = \<lparr>size_m = 3, data = \<lambda>i. if i < 3 then [0x5002, 0x7000, 0x6002] ! i else 0\<rparr>,
        con = \<lparr>stdin = [], stdout = []\<rparr>\<rparr> =
   Inr \<lparr>PC = 1, ACC = 0, IR = 0x6002, state = FETCH, done_f = False, steps = 2,
        mem = \<lparr>size_m = 3, data = \<lambda>i. if i < 3 then [0x5002, 0x7000, 0x6002] ! i else 0\<rparr>,
        con = \<lparr>stdin = [], stdout = []\<rparr>\<rparr> \<and>
   emulate_step CHR ''?''
     \<lparr>PC = 1, ACC = 5, IR = 0x6002, state = EXECUTE, done_f = False, steps = 1,
        mem = \<lparr>size_m = 3, data = \<lambda>i. if i < 3 then [0x5002, 0x7000, 0x6002] ! i else 0\<rparr>,
        con = \<lparr>stdin = [], stdout = []\<rparr>\<rparr> =
   Inr \<lparr>PC = 3, ACC = 5, IR = 0x6002, state = EXECUTE, done_f = False, steps = 2,
        mem = \<lparr>size_m = 3, data = \<lambda>i. if i < 3 then [0x5002, 0x7000, 0x6002] ! i else 0\<rparr>,
        con = \<lparr>stdin = [], stdout = []\<rparr>\<rparr>"
  using
    conditional_jumps [of "\<lparr>PC = 1, ACC = - 1, IR = 0x5002, state = EXECUTE, done_f = False, steps = 1, mem = \<lparr>size_m = 3, data = \<lambda>i. if i < 3 then [0x5002, 0x7000, 0x6002] ! i else 0\<rparr>, con = \<lparr>stdin = [], stdout = []\<rparr>\<rparr>" "CHR ''?''"]
    conditional_jumps [of "\<lparr>PC = 1, ACC = 0, IR = 0x5002, state = EXECUTE, done_f = False, steps = 1, mem = \<lparr>size_m = 3, data = \<lambda>i. if i < 3 then [0x5002, 0x7000, 0x6002] ! i else 0\<rparr>, con = \<lparr>stdin = [], stdout = []\<rparr>\<rparr>" "CHR ''?''"]
    conditional_jumps [of "\<lparr>PC = 1, ACC = 5, IR = 0x5002, state = EXECUTE, done_f = False, steps = 1, mem = \<lparr>size_m = 3, data = \<lambda>i. if i < 3 then [0x5002, 0x7000, 0x6002] ! i else 0\<rparr>, con = \<lparr>stdin = [], stdout = []\<rparr>\<rparr>" "CHR ''?''"]
    conditional_jumps [of "\<lparr>PC = 1, ACC = 0, IR = 0x6002, state = EXECUTE, done_f = False, steps = 1, mem = \<lparr>size_m = 3, data = \<lambda>i. if i < 3 then [0x5002, 0x7000, 0x6002] ! i else 0\<rparr>, con = \<lparr>stdin = [], stdout = []\<rparr>\<rparr>" "CHR ''?''"]
    conditional_jumps [of "\<lparr>PC = 1, ACC = 5, IR = 0x6002, state = EXECUTE, done_f = False, steps = 1, mem = \<lparr>size_m = 3, data = \<lambda>i. if i < 3 then [0x5002, 0x7000, 0x6002] ! i else 0\<rparr>, con = \<lparr>stdin = [], stdout = []\<rparr>\<rparr>" "CHR ''?''"]
  by (simp add: get_def get_opcode_def get_operand_def IO_ADDRESS_def opcode_defs)

section \<open>The two examples, end to end\<close>

lemma replicate_numeral_Cons: "replicate (numeral k) x = x # replicate (pred_numeral k) x"
  by (simp add: numeral_eq_Suc)

lemmas c_library_defs = replicate_numeral_Cons word_sless_alt
  isspace_def deref_def char_at_def is_digit_def digit_val_def NL_def NUL_def cstr_def
  sscanf_s_def strncmp_eq_def strtol_def strtol_int_def LONG_MAX_def LONG_MIN_def
  printf_x_def hex_digit_def fscanf_x_def
  to_hex.simps scan_words.simps

lemmas assembler_defs =
  assemble_def generate_label_table_def process_opcode_def process_opcode_from.simps
  opcode_str_def add_label_def
  LINE_SIZE_def LABEL_C_def NUM_LITERAL_C_def CHAR_LITERAL_C_def COMMENT_C_def

lemmas emulator_defs =
  emulate_def emulate_step_def execute_def jump_def get_def set_mem_def get_opcode_def
  get_operand_def IO_ADDRESS_def read_machine_code_def mem_size_def

text \<open>
  What \<^verbatim>\<open>process_opcode\<close> prints for the line \<^verbatim>\<open>STP\<close> is decided by the string that the
  buffer \<^verbatim>\<open>addr_s\<close> holds on entry, since \<^verbatim>\<open>sscanf\<close> stores nothing in it.
\<close>

lemma process_opcode_STP:
  "process_opcode addr_s0 ''STP\<newline>'' table =
     (if deref addr_s0 = LABEL_C then
        (if get_address table (drop 1 addr_s0) <s 0 then Inl (Exit 1)
         else Inr (Some (''7'' @ printf_x 3 (unat (get_address table (drop 1 addr_s0))) @ [NL])))
      else Inr (Some (''7'' @ printf_x 3 (unat (ucast (strtol addr_s0) :: c_int)) @ [NL])))"
  by (simp add: process_opcode_def process_opcode_from.simps opcode_str_def strncmp_eq_def
      sscanf_s_def isspace_def printf_x_def to_hex.simps hex_digit_def Let_def)

text \<open>
  With a buffer that holds a string which does not start with the label sign and which
  \<^verbatim>\<open>strtol\<close> reads as 0, such as the empty string, the line \<^verbatim>\<open>STP\<close> alone gives
  \<^verbatim>\<open>7000\<close>, and the emulator halts on that word after two rounds with the accumulator 0.
\<close>

lemma file_lines_STP: "file_lines ''STP\<newline>'' = [''STP\<newline>'']"
  by (simp add: LINE_SIZE_def eval_nat_numeral NL_def cstr_def NUL_def)

lemma file_lines_example:
  "file_lines ''LDA :five\<newline>STP\<newline>:five\<newline>#0005\<newline>'' =
     [''LDA :five\<newline>'', ''STP\<newline>'', '':five\<newline>'', ''#0005\<newline>'']"
  by (simp add: LINE_SIZE_def eval_nat_numeral NL_def cstr_def NUL_def)

lemma STP_alone_with_benign_buffer:
  assumes "deref (junk 0) \<noteq> LABEL_C" and "ucast (strtol (junk 0)) = (0 :: c_int)"
  shows "assemble label0 junk ''STP\<newline>'' = Inr ([''7000\<newline>''], [])"
proof -
  from assms have "process_opcode (junk 0) ''STP\<newline>'' [] = Inr (Some ''7000\<newline>'')"
    by (simp add: process_opcode_STP printf_x_def to_hex.simps hex_digit_def NL_def
        replicate_numeral_Cons)
  then show ?thesis
    unfolding assemble_def generate_label_table_def file_lines_STP
    by (simp add: deref_def LABEL_C_def COMMENT_C_def NUM_LITERAL_C_def CHAR_LITERAL_C_def
        isspace_def)
qed

lemma STP_alone_with_empty_buffer:
  "assemble label0 (\<lambda>_. []) ''STP\<newline>'' = Inr ([''7000\<newline>''], [])"
  unfolding assemble_def generate_label_table_def file_lines_STP
  by (simp add: assembler_defs c_library_defs)

lemma STP_alone_runs:
  "emulate junk (read_machine_code heap ''7000\<newline>'') 0 c =
     Some (Inr \<lparr>PC = 1, ACC = 0, IR = 0x7000, state = EXECUTE, done_f = True, steps = 2,
                mem = read_machine_code heap ''7000\<newline>'', con = c\<rparr>)"
proof -
  have "scan_words ''7000\<newline>'' = [0x7000]"
    by (simp add: c_library_defs)
  then show ?thesis
    by (simp add: emulator_defs emulate_loop.simps opcode_defs)
qed

text \<open>
  Claim C8 says that the line \<^verbatim>\<open>STP\<close> assembles to \<^verbatim>\<open>7000\<close> because the absent operand
  is read as the empty string. The source says the same in its comment, but the buffer
  is not set when there is no operand: where it holds \<^verbatim>\<open>5\<close>, the line \<^verbatim>\<open>STP\<close> alone
  assembles to \<^verbatim>\<open>7005\<close>.
\<close>

theorem STP_alone_with_stale_buffer:
  "assemble label0 (\<lambda>_. ''5'') ''STP\<newline>'' = Inr ([''7005\<newline>''], [])"
  unfolding assemble_def generate_label_table_def file_lines_STP file_lines_example
  by (simp add: assembler_defs c_library_defs)

text \<open>
  The program of claim C1. With such a buffer when the line \<^verbatim>\<open>STP\<close> is read, it
  assembles to the three words of the claim, and the emulator halts on them after four
  rounds with the accumulator 5 and the program counter 2.
\<close>

lemma example_with_benign_buffer:
  assumes "deref (junk 1) \<noteq> LABEL_C" and "ucast (strtol (junk 1)) = (0 :: c_int)"
  shows "assemble label0 junk ''LDA :five\<newline>STP\<newline>:five\<newline>#0005\<newline>'' =
           Inr ([''0002\<newline>'', ''7000\<newline>'', ''0005\<newline>''], [])"
proof -
  have table: "generate_label_table_loop
      [''LDA :five\<newline>'', ''STP\<newline>'', '':five\<newline>'', ''#0005\<newline>''] [] label0 0 = ([(''five'', 2)], 3)"
    by (simp add: deref_def LABEL_C_def COMMENT_C_def isspace_def sscanf_s_def add_label_def)
  have lda: "process_opcode (junk 0) ''LDA :five\<newline>'' [(''five'', 2)] = Inr (Some ''0002\<newline>'')"
    by (simp add: process_opcode_def process_opcode_from.simps opcode_str_def c_library_defs
        LABEL_C_def)
  from assms
  have stp: "process_opcode (junk (Suc 0)) ''STP\<newline>'' [(''five'', 2)] = Inr (Some ''7000\<newline>'')"
    by (simp add: process_opcode_STP printf_x_def to_hex.simps hex_digit_def NL_def
        replicate_numeral_Cons)
  have num: "printf_x 4 (unat (strtol ''0005\<newline>'')) = ''0005''"
    by (simp add: c_library_defs)
  show ?thesis
    unfolding assemble_def generate_label_table_def file_lines_example table
    by (simp add: lda stp num deref_def LABEL_C_def COMMENT_C_def NUM_LITERAL_C_def
        CHAR_LITERAL_C_def isspace_def NL_def)
qed

lemma example_with_empty_buffer:
  "assemble label0 (\<lambda>_. []) ''LDA :five\<newline>STP\<newline>:five\<newline>#0005\<newline>'' =
     Inr ([''0002\<newline>'', ''7000\<newline>'', ''0005\<newline>''], [])"
  unfolding assemble_def generate_label_table_def file_lines_STP file_lines_example
  by (simp add: assembler_defs c_library_defs)

lemma example_runs:
  "emulate junk (read_machine_code heap (concat [''0002\<newline>'', ''7000\<newline>'', ''0005\<newline>''])) 0 c =
     Some (Inr \<lparr>PC = 2, ACC = 5, IR = 0x7000, state = EXECUTE, done_f = True, steps = 4,
                mem = read_machine_code heap ''0002\<newline>7000\<newline>0005\<newline>'', con = c\<rparr>)"
proof -
  have "scan_words ''0002\<newline>7000\<newline>0005\<newline>'' = [2, 0x7000, 5]"
    by (simp add: c_library_defs)
  then show ?thesis
    by (simp add: emulator_defs emulate_loop.simps opcode_defs)
qed

text \<open>
  Claim C1 says that the program assembles to exactly \<^verbatim>\<open>0002\<close>, \<^verbatim>\<open>7000\<close>, \<^verbatim>\<open>0005\<close>. The
  middle word comes from the line \<^verbatim>\<open>STP\<close> and so from the buffer that is not set: where
  it holds the operand of the line before, \<^verbatim>\<open>:five\<close>, the program assembles to \<^verbatim>\<open>0002\<close>,
  \<^verbatim>\<open>7002\<close>, \<^verbatim>\<open>0005\<close>.
\<close>

theorem example_with_stale_buffer:
  "assemble label0 (\<lambda>_. '':five'') ''LDA :five\<newline>STP\<newline>:five\<newline>#0005\<newline>'' =
     Inr ([''0002\<newline>'', ''7002\<newline>'', ''0005\<newline>''], [])"
  unfolding assemble_def generate_label_table_def file_lines_STP file_lines_example
  by (simp add: assembler_defs c_library_defs)

section \<open>Printing and scanning hexadecimal numbers\<close>

lemma hex_digit_in_digits: "d < 16 \<Longrightarrow> hex_digit d \<in> set ''0123456789abcdef''"
  unfolding hex_digit_def by (rule nth_mem) simp

lemma digit_val_hex_digit: "d < 16 \<Longrightarrow> digit_val (hex_digit d) = Some d"
proof -
  assume "d < 16"
  then have "d = 0 \<or> d = 1 \<or> d = 2 \<or> d = 3 \<or> d = 4 \<or> d = 5 \<or> d = 6 \<or> d = 7 \<or> d = 8
      \<or> d = 9 \<or> d = 10 \<or> d = 11 \<or> d = 12 \<or> d = 13 \<or> d = 14 \<or> d = 15"
    by arith
  then show ?thesis
    by (auto simp: hex_digit_def digit_val_def)
qed

lemma hex_char_properties:
  assumes "c \<in> set ''0123456789abcdef''"
  shows "is_digit 16 c" and "\<not> isspace c" and "c \<noteq> CHR ''-''" and "c \<noteq> CHR ''+''"
    and "c \<noteq> CHR ''x''" and "c \<noteq> CHR ''X''"
  using assms by (auto simp: is_digit_def digit_val_def isspace_def)

lemma to_hex_not_empty: "to_hex n \<noteq> []"
  by (subst to_hex.simps) simp

lemma set_to_hex: "set (to_hex n) \<subseteq> set ''0123456789abcdef''"
proof (induction n rule: to_hex.induct)
  case (1 n)
  show ?case
  proof (cases "n < 16")
    case True
    then show ?thesis
      using hex_digit_in_digits [of n] by (subst to_hex.simps) simp
  next
    case False
    have "hex_digit (n mod 16) \<in> set ''0123456789abcdef''"
      by (rule hex_digit_in_digits) simp
    with False "1.IH" show ?thesis
      by (subst to_hex.simps) simp
  qed
qed

lemma set_printf_x: "set (printf_x w n) \<subseteq> set ''0123456789abcdef''"
  using set_to_hex [of n] by (auto simp: printf_x_def)

lemma printf_x_not_empty: "printf_x w n \<noteq> []"
  by (simp add: printf_x_def to_hex_not_empty)

text \<open>Scanning the digits that were printed gives the number back.\<close>

lemma digits_value_to_hex:
  "digits_value 16 acc (to_hex n @ r) = digits_value 16 (acc * 16 ^ length (to_hex n) + n) r"
proof (induction n arbitrary: acc r rule: to_hex.induct)
  case (1 n)
  show ?case
  proof (cases "n < 16")
    case True
    then show ?thesis
      by (subst (1 2) to_hex.simps) (simp add: digit_val_hex_digit)
  next
    case False
    have "digits_value 16 acc (to_hex n @ r) =
          digits_value 16 acc (to_hex (n div 16) @ hex_digit (n mod 16) # r)"
      using False by (subst to_hex.simps) simp
    also have "\<dots> = digits_value 16 (acc * 16 ^ length (to_hex (n div 16)) + n div 16)
                       (hex_digit (n mod 16) # r)"
      using False by (rule "1.IH")
    also have "\<dots> = digits_value 16
                       ((acc * 16 ^ length (to_hex (n div 16)) + n div 16) * 16 + n mod 16) r"
      by (simp add: digit_val_hex_digit)
    also have "(acc * 16 ^ length (to_hex (n div 16)) + n div 16) * 16 + n mod 16 =
               acc * 16 ^ length (to_hex n) + n"
    proof -
      have "length (to_hex n) = Suc (length (to_hex (n div 16)))"
        using False by (subst to_hex.simps) simp
      then show ?thesis
        by (simp add: algebra_simps)
    qed
    finally show ?thesis .
  qed
qed

lemma digits_value_zeros:
  "digits_value 16 acc (replicate k (CHR ''0'') @ r) = digits_value 16 (acc * 16 ^ k) r"
  by (induction k arbitrary: acc) (simp_all add: digit_val_def algebra_simps)

lemma digits_value_printf_x:
  "digits_value 16 acc (printf_x w n @ r) =
     digits_value 16 (acc * 16 ^ length (printf_x w n) + n) r"
  by (simp add: printf_x_def digits_value_zeros digits_value_to_hex power_add algebra_simps)

text \<open>The number of digits printed: the width when the number fits in it, more otherwise.\<close>

lemma length_to_hex_le: "0 < k \<Longrightarrow> n < 16 ^ k \<Longrightarrow> length (to_hex n) \<le> k"
proof (induction n arbitrary: k rule: to_hex.induct)
  case (1 n)
  show ?case
  proof (cases "n < 16")
    case True
    with "1.prems" show ?thesis
      by (subst to_hex.simps) simp
  next
    case False
    from "1.prems" obtain j where k: "k = Suc j"
      by (cases k) auto
    have j: "0 < j"
    proof (rule ccontr)
      assume "\<not> 0 < j"
      with k "1.prems" False show False by simp
    qed
    from "1.prems" k have "n div 16 < 16 ^ j"
      by (simp add: less_mult_imp_div_less mult.commute)
    with False j have "length (to_hex (n div 16)) \<le> j"
      by (intro "1.IH") simp_all
    with False k show ?thesis
      by (subst to_hex.simps) simp
  qed
qed

lemma length_to_hex_gt: "16 ^ k \<le> n \<Longrightarrow> k < length (to_hex n)"
proof (induction n arbitrary: k rule: to_hex.induct)
  case (1 n)
  show ?case
  proof (cases "n < 16")
    case True
    have "k = 0"
    proof (cases k)
      case (Suc j)
      have "(1::nat) \<le> 16 ^ j" by simp
      then have "(16::nat) \<le> 16 * 16 ^ j" by simp
      with Suc "1.prems" True show ?thesis by simp
    qed simp
    then show ?thesis
      by (simp add: to_hex_not_empty)
  next
    case False
    show ?thesis
    proof (cases k)
      case 0
      then show ?thesis by (simp add: to_hex_not_empty)
    next
      case (Suc j)
      with "1.prems" have "16 ^ j \<le> n div 16"
        by (simp add: less_eq_div_iff_mult_less_eq mult.commute)
      with False have "j < length (to_hex (n div 16))"
        by (intro "1.IH") simp_all
      with False Suc show ?thesis
        by (subst to_hex.simps) simp
    qed
  qed
qed

lemma length_printf_x:
  "0 < w \<Longrightarrow> n < 16 ^ w \<Longrightarrow> length (printf_x w n) = w"
  "16 ^ w \<le> n \<Longrightarrow> w < length (printf_x w n)"
  using length_to_hex_le [of w n] length_to_hex_gt [of w n] by (simp_all add: printf_x_def)

lemma fscanf_x_hex:
  assumes "h \<noteq> []" and "set h \<subseteq> set ''0123456789abcdef''"
  shows "fscanf_x (h @ NL # rest) = Some (of_nat (digits_value 16 0 h), NL # rest)"
proof -
  from assms(1) obtain c t where h: "h = c # t"
    by (cases h) auto
  from assms(2) have digits: "\<forall>x \<in> set h. is_digit 16 x"
    using hex_char_properties(1) by blast
  from assms(2) have c: "c \<in> set ''0123456789abcdef''"
    unfolding h by (rule subsetD) simp
  have nl: "\<not> is_digit 16 NL"
    by (simp add: is_digit_def digit_val_def NL_def)
  have space: "dropWhile isspace (h @ NL # rest) = h @ NL # rest"
    using hex_char_properties(2) [OF c] by (simp add: h)
  have sign: "scan_sign (h @ NL # rest) = (False, h @ NL # rest)"
    using hex_char_properties(3,4) [OF c] by (simp add: h)
  have prefix: "scan_0x (h @ NL # rest) = h @ NL # rest"
  proof (cases t)
    case Nil
    then show ?thesis
      by (simp add: h NL_def)
  next
    case (Cons x t')
    from assms(2) have "x \<in> set ''0123456789abcdef''"
      unfolding h Cons by (rule subsetD) simp
    from hex_char_properties(5,6) [OF this] Cons show ?thesis
      by (simp add: h)
  qed
  have take: "takeWhile (is_digit 16) (h @ NL # rest) = h"
    using digits nl by (simp add: takeWhile_append2)
  have drop: "dropWhile (is_digit 16) (h @ NL # rest) = NL # rest"
    using digits nl by (simp add: dropWhile_append2)
  show ?thesis
    using assms(1) by (simp add: fscanf_x_def space sign prefix take drop)
qed

lemma scan_words_hex:
  assumes "h \<noteq> []" and "set h \<subseteq> set ''0123456789abcdef''"
  shows "scan_words (h @ [NL]) = [of_nat (digits_value 16 0 h)]"
proof -
  have "fscanf_x [NL] = None"
    by (simp add: fscanf_x_def isspace_def NL_def)
  then have "scan_words [NL] = []"
    by (subst scan_words.simps) simp
  with fscanf_x_hex [OF assms, of "[]"] show ?thesis
    by (subst scan_words.simps) simp
qed

text \<open>What the emulator reads back from a number printed with a width.\<close>

lemma scan_words_printf_x: "scan_words (printf_x w n @ [NL]) = [of_nat n]"
  using scan_words_hex [OF printf_x_not_empty set_printf_x, of w n]
    digits_value_printf_x [of 0 w n "[]"]
  by simp

lemma scan_words_opcode_operand:
  "scan_words (printf_x 1 i @ printf_x 3 n @ [NL]) =
     [of_nat (i * 16 ^ length (printf_x 3 n) + n)]"
proof -
  have "scan_words ((printf_x 1 i @ printf_x 3 n) @ [NL]) =
        [of_nat (digits_value 16 0 (printf_x 1 i @ printf_x 3 n))]"
    using set_printf_x [of 1 i] set_printf_x [of 3 n]
    by (intro scan_words_hex) (auto simp: printf_x_not_empty)
  moreover have "digits_value 16 0 (printf_x 1 i @ printf_x 3 n) =
                 i * 16 ^ length (printf_x 3 n) + n"
    using digits_value_printf_x [of 0 1 i "printf_x 3 n"]
      digits_value_printf_x [of i 3 n "[]"]
    by simp
  ultimately show ?thesis
    by simp
qed

text \<open>
  The emulator's \<^verbatim>\<open>get_opcode\<close> and \<^verbatim>\<open>get_operand\<close> take a word apart into the opcode
  and the operand it was put together from.
\<close>

lemma decode_word:
  fixes n :: c_int
  assumes "i < 8" and "unat n < 4096"
  shows "get_opcode (of_nat i * 4096 + n) = of_nat i"
    and "get_operand (of_nat i * 4096 + n) = n"
proof -
  define N where "N = i * 4096 + unat n"
  from assms have N: "N < 32768" and N_div: "N div 4096 = i" and N_mod: "N mod 4096 = unat n"
    by (simp_all add: N_def)
  have w: "of_nat i * 4096 + n = (of_nat N :: c_int)"
    by (simp add: N_def)
  have sint_N: "sint (of_nat N :: c_int) = int N"
    using N by (simp add: signed_of_nat signed_take_bit_int_eq_self)
  have sint_i: "sint (of_nat i :: c_int) = int i"
    using assms(1) by (simp add: signed_of_nat signed_take_bit_int_eq_self)
  have unat_N: "unat (of_nat N :: c_int) = N"
    using N by (simp add: unat_of_nat)
  have "drop_bit 12 (int N) = int (N div 4096)"
    by (simp add: drop_bit_eq_div zdiv_int)
  then have "sint (signed_drop_bit 12 (of_nat N :: c_int)) = sint (of_nat i :: c_int)"
    by (simp only: sint_signed_drop_bit_eq sint_N sint_i N_div)
  then show "get_opcode (of_nat i * 4096 + n) = of_nat i"
    unfolding get_opcode_def w by (rule signed_word_eqI)
  have mask: "(0xfff :: c_int) = mask 12"
    by (simp add: mask_eq_exp_minus_1)
  have "unat (take_bit 12 (of_nat N :: c_int)) = take_bit 12 N"
    by (simp only: unsigned_take_bit_eq unat_N)
  also have "\<dots> = unat n"
    using N_mod by (simp add: take_bit_eq_mod)
  finally show "get_operand (of_nat i * 4096 + n) = n"
    unfolding get_operand_def w mask by (simp add: word_unat_eq_iff flip: take_bit_eq_mask)
qed

section \<open>Properties of the assembler\<close>

lemma opcode_str_unique:
  assumes "i < 8" and "j < 8"
    and "strncmp_eq line (opcode_str ! i) 3" and "strncmp_eq line (opcode_str ! j) 3"
  shows "i = j"
proof -
  have three: "\<forall>m \<in> set opcode_str. take 3 m = m"
    by (simp add: opcode_str_def)
  have len: "length opcode_str = 8" and dist: "distinct opcode_str"
    by (simp_all add: opcode_str_def)
  from assms len have "take 3 (opcode_str ! i) = opcode_str ! i"
    and "take 3 (opcode_str ! j) = opcode_str ! j"
    using three by simp_all
  with assms(3,4) have "opcode_str ! i = opcode_str ! j"
    by (simp add: strncmp_eq_def)
  with assms(1,2) len dist show ?thesis
    by (simp add: nth_eq_iff_index_eq)
qed

lemma process_opcode_from_first:
  assumes "i \<le> j" and "j < 8" and "strncmp_eq line (opcode_str ! j) 3"
  shows "process_opcode_from i addr_s0 line table = process_opcode_from j addr_s0 line table"
  using assms(1)
proof (induction rule: inc_induct)
  case base
  show ?case by simp
next
  case (step k)
  with assms(2) have "k < 8" and "k \<noteq> j"
    by simp_all
  with assms(2,3) have "\<not> strncmp_eq line (opcode_str ! k) 3"
    using opcode_str_unique [of k j line] by blast
  with \<open>k < 8\<close> have "process_opcode_from k addr_s0 line table =
                      process_opcode_from (Suc k) addr_s0 line table"
    by (subst process_opcode_from.simps) simp
  with step.IH show ?case
    by simp
qed

text \<open>
  Claim C2, amended. A line that starts with the mnemonic of opcode \<open>i\<close> and goes on
  with a token makes \<^verbatim>\<open>process_opcode\<close> print the digit of \<open>i\<close> and then the operand
  \<open>n\<close>: the address of the label when the token starts with the label sign (a label that
  is not known ends the run), the number that \<^verbatim>\<open>strtol\<close> reads otherwise. No mask is
  applied. When \<open>n\<close> is below 4096 the text is four digits, which the emulator reads as
  the word with opcode \<open>i\<close> and operand \<open>n\<close>; from 4096 on, the operand alone takes more
  than three digits and the text more than four.
\<close>

theorem opcode_line_encoding:
  assumes "i < 8" and "strncmp_eq line (opcode_str ! i) 3"
    and "sscanf_s (drop 3 line) = Some tok"
    and "n = (if deref tok = LABEL_C then get_address table (drop 1 tok)
              else ucast (strtol tok))"
    and "\<not> (deref tok = LABEL_C \<and> n <s 0)"
  shows "process_opcode addr_s0 line table =
           Inr (Some (printf_x 1 i @ printf_x 3 (unat n) @ [NL])) \<and>
         (unat n < 4096 \<longrightarrow>
            length (printf_x 1 i @ printf_x 3 (unat n)) = 4 \<and>
            scan_words (printf_x 1 i @ printf_x 3 (unat n) @ [NL]) = [of_nat i * 4096 + n] \<and>
            get_opcode (of_nat i * 4096 + n) = of_nat i \<and>
            get_operand (of_nat i * 4096 + n) = n) \<and>
         (4096 \<le> unat n \<longrightarrow> 4 < length (printf_x 1 i @ printf_x 3 (unat n)))"
proof (intro conjI impI)
  have "process_opcode addr_s0 line table = process_opcode_from i addr_s0 line table"
    unfolding process_opcode_def using assms(1,2) by (intro process_opcode_from_first) simp_all
  also have "\<dots> = Inr (Some (printf_x 1 i @ printf_x 3 (unat n) @ [NL]))"
    using assms by (subst process_opcode_from.simps) (simp add: Let_def)
  finally show "process_opcode addr_s0 line table =
      Inr (Some (printf_x 1 i @ printf_x 3 (unat n) @ [NL]))" .
  have one: "length (printf_x 1 i) = 1"
    using assms(1) length_printf_x(1) [of 1 i] by simp
  {
    assume small: "unat n < 4096"
    then have three: "length (printf_x 3 (unat n)) = 3"
      using length_printf_x(1) [of 3 "unat n"] by simp
    with one show "length (printf_x 1 i @ printf_x 3 (unat n)) = 4"
      by simp
    have "scan_words (printf_x 1 i @ printf_x 3 (unat n) @ [NL]) =
          [of_nat (i * 16 ^ 3 + unat n)]"
      unfolding scan_words_opcode_operand three ..
    then show "scan_words (printf_x 1 i @ printf_x 3 (unat n) @ [NL]) = [of_nat i * 4096 + n]"
      by simp
    from assms(1) small show "get_opcode (of_nat i * 4096 + n) = of_nat i"
      and "get_operand (of_nat i * 4096 + n) = n"
      by (rule decode_word)+
  }
  {
    assume "4096 \<le> unat n"
    then have "3 < length (printf_x 3 (unat n))"
      using length_printf_x(2) [of 3 "unat n"] by simp
    with one show "4 < length (printf_x 1 i @ printf_x 3 (unat n))"
      by simp
  }
qed

theorem opcode_line_encoding_witness:
  "(4 :: nat) < 8 \<and> strncmp_eq ''JMP :loop\<newline>'' (opcode_str ! 4) 3 \<and>
   sscanf_s (drop 3 ''JMP :loop\<newline>'') = Some '':loop'' \<and>
   process_opcode [] ''JMP :loop\<newline>'' [(''loop'', 10)] = Inr (Some ''400a\<newline>'') \<and>
   scan_words ''400a\<newline>'' = [0x400a] \<and>
   get_opcode 0x400a = JMP \<and> get_operand 0x400a = 10"
  using opcode_line_encoding
    [of 4 "''JMP :loop\<newline>''" "'':loop''" 10 "[(''loop'', 10)]" "[]"]
  by (simp add: c_library_defs opcode_str_def LABEL_C_def JMP_def)

text \<open>
  Claim C2 as it is written fails for the operand 4096: \<^verbatim>\<open>LDA 4096\<close> is printed as
  \<^verbatim>\<open>01000\<close>, which the emulator reads as the word \<^verbatim>\<open>0x1000\<close>, with opcode 1, and not as
  the word with opcode 0 and operand \<^verbatim>\<open>4096 & 0xFFF\<close>.
\<close>

theorem operand_4096_not_masked:
  "process_opcode [] ''LDA 4096\<newline>'' [] = Inr (Some ''01000\<newline>'') \<and>
   scan_words ''01000\<newline>'' = [0x1000] \<and>
   get_opcode 0x1000 = STO \<and>
   (0x1000 :: c_int) \<noteq> push_bit 12 LDA OR (4096 AND 0xfff)"
  by (simp add: assembler_defs c_library_defs get_opcode_def opcode_defs)

text \<open>
  Claim C3, amended. A line that starts with \<^verbatim>\<open>#\<close> makes the second pass print the
  number that \<^verbatim>\<open>strtol\<close> reads behind the sign (decimal, hexadecimal after \<^verbatim>\<open>0x\<close>, octal
  after a leading \<^verbatim>\<open>0\<close>), as an unsigned 64-bit number in at least four hexadecimal
  digits, and nothing is cut off. A number below \<open>2\<^sup>1\<^sup>6\<close> gives four digits, which the
  emulator reads as that number; from \<open>2\<^sup>1\<^sup>6\<close> on, and for a negative number, the text
  has more than four digits.
\<close>

theorem numeric_literal_encoding:
  assumes "deref line = NUM_LITERAL_C" and "v = strtol (drop 1 line)"
  shows "assemble_loop junk k (line # rest) table fout warn =
           assemble_loop junk (Suc k) rest table (fout @ [printf_x 4 (unat v) @ [NL]]) warn \<and>
         (unat v < 65536 \<longrightarrow>
            length (printf_x 4 (unat v)) = 4 \<and>
            scan_words (printf_x 4 (unat v) @ [NL]) = [ucast v]) \<and>
         (65536 \<le> unat v \<longrightarrow> 4 < length (printf_x 4 (unat v)))"
proof (intro conjI impI)
  show "assemble_loop junk k (line # rest) table fout warn =
      assemble_loop junk (Suc k) rest table (fout @ [printf_x 4 (unat v) @ [NL]]) warn"
    using assms
    by (simp add: NUM_LITERAL_C_def LABEL_C_def COMMENT_C_def isspace_def)
  show "scan_words (printf_x 4 (unat v) @ [NL]) = [ucast v]"
    by (simp add: scan_words_printf_x)
next
  show "length (printf_x 4 (unat v)) = 4" if "unat v < 65536"
    using that length_printf_x(1) [of 4 "unat v"] by simp
  show "4 < length (printf_x 4 (unat v))" if "65536 \<le> unat v"
    using that length_printf_x(2) [of 4 "unat v"] by simp
qed

theorem numeric_literal_encoding_witness:
  "deref ''#0x1F\<newline>'' = NUM_LITERAL_C \<and> strtol (drop 1 ''#0x1F\<newline>'') = 31 \<and>
   assemble_loop (\<lambda>_. []) 0 [''#0x1F\<newline>''] [] [] [] = Inr ([''001f\<newline>''], []) \<and>
   scan_words ''001f\<newline>'' = [31] \<and>
   strtol ''19'' = 19 \<and> strtol ''0005'' = 5 \<and> strtol ''010'' = 8"
  using numeric_literal_encoding [of "''#0x1F\<newline>''" 31 "\<lambda>_. []" 0 "[]" "[]" "[]" "[]"]
  by (simp add: c_library_defs NUM_LITERAL_C_def)

text \<open>
  Claim C3 as it is written fails for the number 65536: it is not cut to 16 bits (which
  would give 0) but printed whole as \<^verbatim>\<open>10000\<close>, which the emulator reads as 65536.
\<close>

theorem literal_65536_not_truncated:
  "assemble [] (\<lambda>_. []) ''#65536\<newline>'' = Inr ([''10000\<newline>''], []) \<and>
   scan_words ''10000\<newline>'' = [0x10000] \<and>
   (0x10000 :: c_int) \<noteq> 65536 AND 0xffff"
proof -
  have "file_lines ''#65536\<newline>'' = [''#65536\<newline>'']"
    by (simp add: LINE_SIZE_def eval_nat_numeral NL_def cstr_def NUL_def)
  then have "assemble [] (\<lambda>_. []) ''#65536\<newline>'' = Inr ([''10000\<newline>''], [])"
    unfolding assemble_def generate_label_table_def by (simp add: assembler_defs c_library_defs)
  then show ?thesis
    by (simp add: c_library_defs)
qed

lemma process_opcode_known_mnemonic:
  assumes "i < 8" and "strncmp_eq line (opcode_str ! i) 3"
  shows "process_opcode addr_s0 line table \<noteq> Inr None"
proof -
  have "process_opcode addr_s0 line table = process_opcode_from i addr_s0 line table"
    unfolding process_opcode_def using assms by (intro process_opcode_from_first) simp_all
  also have "\<dots> \<noteq> Inr None"
    using assms by (subst process_opcode_from.simps) (simp add: Let_def)
  finally show ?thesis .
qed

text \<open>A mnemonic starts with one of four letters, so an opcode line is not skipped.\<close>

lemma mnemonic_line_first:
  assumes "mnemonic_line line"
  shows "deref line \<in> set ''LSAJ''"
proof -
  from assms obtain i where "i < 8" and "take 3 line = take 3 (opcode_str ! i)"
    by (auto simp: mnemonic_line_def strncmp_eq_def)
  moreover have "length opcode_str = 8" and "\<forall>m \<in> set opcode_str. take 3 m = m"
    by (simp_all add: opcode_str_def)
  ultimately have "take 3 line \<in> set opcode_str"
    by (metis nth_mem)
  then show ?thesis
    by (cases line) (auto simp: opcode_str_def deref_def)
qed

lemma mnemonic_line_not_ignored: "mnemonic_line line \<Longrightarrow> \<not> ignored_line line"
  by (drule mnemonic_line_first)
    (auto simp: ignored_line_def LABEL_C_def COMMENT_C_def isspace_def)

lemma blank_line_ignored: "blank_line line \<Longrightarrow> ignored_line line"
  by (cases line) (auto simp: blank_line_def ignored_line_def deref_def)

text \<open>On a valid line the test of the source and the words of the specification agree.\<close>

lemma valid_line_counted:
  assumes "valid_line line"
  shows "counted_line line \<longleftrightarrow> \<not> ignored_line line"
proof
  assume "counted_line line"
  with assms have "numeric_literal_line line \<or> character_literal_line line \<or> mnemonic_line line"
    by (auto simp: valid_line_def counted_line_def)
  then show "\<not> ignored_line line"
    using mnemonic_line_not_ignored [of line]
    by (auto simp: numeric_literal_line_def character_literal_line_def ignored_line_def
        NUM_LITERAL_C_def CHAR_LITERAL_C_def LABEL_C_def COMMENT_C_def isspace_def)
next
  assume "\<not> ignored_line line"
  then show "counted_line line"
    using blank_line_ignored [of line]
    by (auto simp: counted_line_def comment_line_def label_line_def ignored_line_def)
qed

lemma generate_label_table_loop_addr:
  "snd (generate_label_table_loop ls table label addr) =
     addr + of_nat (length (filter (\<lambda>l. \<not> ignored_line l) ls))"
  by (induction ls arbitrary: table label addr) (auto simp: ignored_line_def Let_def)

lemma assemble_loop_count:
  assumes "\<forall>l \<in> set ls. valid_line l"
    and "assemble_loop junk k ls table fout warn = Inr (fout', warn')"
  shows "length fout' = length fout + length (filter (\<lambda>l. \<not> ignored_line l) ls) \<and> warn' = warn"
  using assms
proof (induction ls arbitrary: k fout warn)
  case Nil
  then show ?case by simp
next
  case (Cons line rest)
  from Cons.prems(1) have rest: "\<forall>l \<in> set rest. valid_line l" and line: "valid_line line"
    by simp_all
  consider (skip) "ignored_line line"
    | (num) "\<not> ignored_line line" "deref line = NUM_LITERAL_C"
    | (chr) "\<not> ignored_line line" "deref line \<noteq> NUM_LITERAL_C" "deref line = CHAR_LITERAL_C"
    | (op) "\<not> ignored_line line" "deref line \<noteq> NUM_LITERAL_C" "deref line \<noteq> CHAR_LITERAL_C"
    by blast
  then show ?case
  proof cases
    case skip
    with Cons.prems(2) have "assemble_loop junk (Suc k) rest table fout warn = Inr (fout', warn')"
      by (simp add: ignored_line_def)
    from Cons.IH [OF rest this] skip show ?thesis
      by simp
  next
    case num
    with Cons.prems(2) have "assemble_loop junk (Suc k) rest table
        (fout @ [printf_x 4 (unat (strtol (drop 1 line))) @ [NL]]) warn = Inr (fout', warn')"
      by (simp add: ignored_line_def)
    from Cons.IH [OF rest this] num show ?thesis
      by simp
  next
    case chr
    with Cons.prems(2) have "assemble_loop junk (Suc k) rest table
        (fout @ [printf_x 4 (unat (char_to_int (char_at line 1))) @ [NL]]) warn = Inr (fout', warn')"
      by (simp add: ignored_line_def)
    from Cons.IH [OF rest this] chr show ?thesis
      by simp
  next
    case op
    with line blank_line_ignored [of line] have "mnemonic_line line"
      by (auto simp: valid_line_def ignored_line_def comment_line_def label_line_def
          numeric_literal_line_def character_literal_line_def)
    then obtain i where "i < 8" and "strncmp_eq line (opcode_str ! i) 3"
      by (auto simp: mnemonic_line_def)
    then have known: "process_opcode (junk k) line table \<noteq> Inr None"
      by (rule process_opcode_known_mnemonic)
    from op Cons.prems(2) have run: "(case process_opcode (junk k) line table of
           Inl e \<Rightarrow> Inl e
         | Inr (Some t) \<Rightarrow> assemble_loop junk (Suc k) rest table (fout @ [t]) warn
         | Inr None \<Rightarrow> assemble_loop junk (Suc k) rest table fout (warn @ [line])) =
        Inr (fout', warn')"
      by (simp add: ignored_line_def)
    with known obtain t where "process_opcode (junk k) line table = Inr (Some t)"
      and "assemble_loop junk (Suc k) rest table (fout @ [t]) warn = Inr (fout', warn')"
      by (auto split: sum.splits option.splits)
    from Cons.IH [OF rest this(2)] op show ?thesis
      by simp
  qed
qed

text \<open>
  Every text that the assembler prints is such a line, and the emulator reads one word
  from each.
\<close>

lemma hex_text_printf_x: "hex_text (printf_x w n @ [NL])"
  unfolding hex_text_def using set_printf_x [of w n] printf_x_not_empty [of w n] by blast

lemma hex_text_opcode_operand: "hex_text (printf_x 1 i @ printf_x 3 n @ [NL])"
proof -
  have "set (printf_x 1 i @ printf_x 3 n) \<subseteq> set ''0123456789abcdef''"
    using set_printf_x [of 1 i] set_printf_x [of 3 n] by (simp del: set_simps)
  moreover have "printf_x 1 i @ printf_x 3 n \<noteq> []"
    by (simp add: printf_x_not_empty)
  ultimately have "\<exists>h. (printf_x 1 i @ printf_x 3 n) @ [NL] = h @ [NL] \<and> h \<noteq> []
      \<and> set h \<subseteq> set ''0123456789abcdef''"
    by blast
  then show ?thesis
    by (simp add: hex_text_def)
qed

lemma process_opcode_from_text:
  "process_opcode_from i addr_s0 line table = Inr (Some t) \<Longrightarrow> hex_text t"
proof (induction i addr_s0 line table rule: process_opcode_from.induct)
  case (1 i addr_s0 line table)
  show ?case
  proof (cases "i < 8 \<and> strncmp_eq line (opcode_str ! i) 3")
    case True
    with "1.prems" obtain n where "t = printf_x 1 i @ printf_x 3 n @ [NL]"
      by (subst (asm) process_opcode_from.simps) (auto simp: Let_def split: if_splits)
    then show ?thesis
      by (simp only: hex_text_opcode_operand)
  next
    case False
    with "1.prems" have "i < 8" and "\<not> strncmp_eq line (opcode_str ! i) 3"
      and "process_opcode_from (Suc i) addr_s0 line table = Inr (Some t)"
      by (subst (asm) process_opcode_from.simps, auto split: if_splits)+
    then show ?thesis
      by (rule "1.IH")
  qed
qed

lemma assemble_loop_texts:
  assumes "assemble_loop junk k ls table fout warn = Inr (fout', warn')"
    and "\<forall>t \<in> set fout. hex_text t"
  shows "\<forall>t \<in> set fout'. hex_text t"
  using assms
proof (induction ls arbitrary: k fout warn)
  case Nil
  then show ?case by simp
next
  case (Cons line rest)
  consider (skip) "ignored_line line"
    | (num) "\<not> ignored_line line" "deref line = NUM_LITERAL_C"
    | (chr) "\<not> ignored_line line" "deref line \<noteq> NUM_LITERAL_C" "deref line = CHAR_LITERAL_C"
    | (op) "\<not> ignored_line line" "deref line \<noteq> NUM_LITERAL_C" "deref line \<noteq> CHAR_LITERAL_C"
    by blast
  then show ?case
  proof cases
    case skip
    with Cons.prems(1) have "assemble_loop junk (Suc k) rest table fout warn = Inr (fout', warn')"
      by (simp add: ignored_line_def)
    from Cons.IH [OF this Cons.prems(2)] show ?thesis .
  next
    case num
    with Cons.prems(1) have "assemble_loop junk (Suc k) rest table
        (fout @ [printf_x 4 (unat (strtol (drop 1 line))) @ [NL]]) warn = Inr (fout', warn')"
      by (simp add: ignored_line_def)
    moreover have "\<forall>t \<in> set (fout @ [printf_x 4 (unat (strtol (drop 1 line))) @ [NL]]). hex_text t"
      using Cons.prems(2) by (simp add: hex_text_printf_x)
    ultimately show ?thesis
      by (rule Cons.IH)
  next
    case chr
    with Cons.prems(1) have "assemble_loop junk (Suc k) rest table
        (fout @ [printf_x 4 (unat (char_to_int (char_at line 1))) @ [NL]]) warn = Inr (fout', warn')"
      by (simp add: ignored_line_def)
    moreover have "\<forall>t \<in> set (fout @ [printf_x 4 (unat (char_to_int (char_at line 1))) @ [NL]]). hex_text t"
      using Cons.prems(2) by (simp add: hex_text_printf_x)
    ultimately show ?thesis
      by (rule Cons.IH)
  next
    case op
    with Cons.prems(1) have run: "(case process_opcode (junk k) line table of
           Inl e \<Rightarrow> Inl e
         | Inr (Some t) \<Rightarrow> assemble_loop junk (Suc k) rest table (fout @ [t]) warn
         | Inr None \<Rightarrow> assemble_loop junk (Suc k) rest table fout (warn @ [line])) =
        Inr (fout', warn')"
      by (simp add: ignored_line_def)
    show ?thesis
    proof (cases "process_opcode (junk k) line table")
      case (Inl e)
      with run show ?thesis by simp
    next
      case (Inr r)
      show ?thesis
      proof (cases r)
        case None
        with run Inr have "assemble_loop junk (Suc k) rest table fout (warn @ [line]) =
            Inr (fout', warn')"
          by simp
        from Cons.IH [OF this Cons.prems(2)] show ?thesis .
      next
        case (Some t)
        with run Inr have "assemble_loop junk (Suc k) rest table (fout @ [t]) warn =
            Inr (fout', warn')"
          by simp
        moreover from Inr Some have "hex_text t"
          unfolding process_opcode_def by (intro process_opcode_from_text) simp
        with Cons.prems(2) have "\<forall>x \<in> set (fout @ [t]). hex_text x"
          by simp
        ultimately show ?thesis
          by (rule Cons.IH)
      qed
    qed
  qed
qed

lemma scan_words_Nil: "scan_words [] = []"
  by (subst scan_words.simps) (simp add: fscanf_x_def)

lemma scan_words_NL: "scan_words (NL # s) = scan_words s"
  by (subst (1 2) scan_words.simps) (simp add: fscanf_x_def isspace_def NL_def)

lemma length_scan_words_concat:
  "\<forall>t \<in> set ts. hex_text t \<Longrightarrow> length (scan_words (concat ts)) = length ts"
proof (induction ts)
  case Nil
  show ?case by (simp add: scan_words_Nil)
next
  case (Cons t ts)
  from Cons.prems obtain h where t: "t = h @ [NL]"
    and h: "h \<noteq> []" "set h \<subseteq> set ''0123456789abcdef''"
    unfolding hex_text_def by (meson list.set_intros(1))
  have "scan_words (h @ NL # concat ts) =
        of_nat (digits_value 16 0 h) # scan_words (NL # concat ts)"
    using fscanf_x_hex [OF h, of "concat ts"] by (subst scan_words.simps) simp
  with Cons show ?case
    by (simp add: t scan_words_NL)
qed

text \<open>The emulator finds as many words in the output as the assembler printed texts.\<close>

lemma mem_size_assemble:
  assumes "assemble label0 junk fin = Inr (fout, warn)"
  shows "mem_size (concat fout) = of_nat (length fout)"
proof -
  from assms have "\<forall>t \<in> set fout. hex_text t"
    unfolding assemble_def by (rule assemble_loop_texts) simp
  then show ?thesis
    by (simp add: mem_size_def length_scan_words_concat)
qed

text \<open>
  The count over the buffers that \<^verbatim>\<open>fgets\<close> delivers: when each of them is a valid line
  and the assembler runs to its end, it prints as many words as there are buffers that
  are not blank, comment or label lines.
\<close>

lemma assemble_count_buffers:
  assumes "\<forall>line \<in> set (file_lines fin). valid_line line"
    and "assemble label0 junk fin = Inr (fout, warn)"
  shows "length fout = length (filter counted_line (file_lines fin)) \<and>
         mem_size (concat fout) = of_nat (length (filter counted_line (file_lines fin))) \<and>
         generate_label_table_addr label0 fin =
           of_nat (length (filter counted_line (file_lines fin))) \<and>
         warn = []"
proof -
  have "filter counted_line (file_lines fin) = filter (\<lambda>l. \<not> ignored_line l) (file_lines fin)"
    using assms(1) by (intro filter_cong) (simp_all add: valid_line_counted)
  with assemble_loop_count [OF assms(1) assms(2) [unfolded assemble_def]]
    mem_size_assemble [OF assms(2)]
  show ?thesis
    by (simp add: generate_label_table_addr_def generate_label_table_loop_addr)
qed

text \<open>
  A line that fits the buffer is what \<^verbatim>\<open>fgets\<close> delivers, so a source whose lines all
  fit is read line by line.
\<close>

lemma fgets_split_take_line:
  "length (fst (take_line s)) \<le> k \<Longrightarrow> fgets_split k s = take_line s"
proof (induction s arbitrary: k)
  case Nil
  show ?case by (cases k) simp_all
next
  case (Cons c s)
  from Cons.prems obtain j where k: "k = Suc j"
    by (cases k) (auto split: if_splits prod.splits)
  show ?case
  proof (cases "c = NL")
    case True
    then show ?thesis by (simp add: k)
  next
    case False
    with Cons.prems k have "length (fst (take_line s)) \<le> j"
      by (simp split: prod.splits)
    then have "fgets_split j s = take_line s"
      by (rule Cons.IH)
    with False show ?thesis
      by (simp add: k)
  qed
qed

lemma file_lines_source_lines:
  "\<forall>l \<in> set (source_lines fin). length l \<le> LINE_SIZE - 1 \<Longrightarrow>
   file_lines fin = map cstr (source_lines fin)"
proof (induction fin rule: source_lines.induct)
  case 1
  show ?case by simp
next
  case (2 c s)
  obtain l r where lr: "take_line (c # s) = (l, r)"
    by (cases "take_line (c # s)")
  with "2.prems" have short: "length l \<le> LINE_SIZE - 1"
    and rest: "\<forall>x \<in> set (source_lines r). length x \<le> LINE_SIZE - 1"
    by simp_all
  from short lr have "fgets_split (LINE_SIZE - 1) (c # s) = (l, r)"
    using fgets_split_take_line [of "c # s" "LINE_SIZE - 1"] by simp
  moreover have "file_lines r = map cstr (source_lines r)"
    using lr [symmetric] rest by (rule "2.IH")
  ultimately show ?case
    using lr by simp
qed

text \<open>
  A valid line does not start with NUL, and the part of it before its first NUL, which
  is all that the string functions see, is a valid line of the same kind.
\<close>

lemma valid_line_first: "valid_line line \<Longrightarrow> deref line \<noteq> NUL"
proof -
  assume "valid_line line"
  then consider "blank_line line" | "comment_line line" | "label_line line"
    | "numeric_literal_line line" | "character_literal_line line" | "mnemonic_line line"
    by (auto simp: valid_line_def)
  then show ?thesis
  proof cases
    case 1
    then show ?thesis
      by (cases line) (auto simp: blank_line_def deref_def isspace_def NUL_def)
  next
    case 6
    from mnemonic_line_first [OF this] show ?thesis
      by (auto simp: NUL_def)
  qed (simp_all add: comment_line_def label_line_def numeric_literal_line_def
      character_literal_line_def COMMENT_C_def LABEL_C_def NUM_LITERAL_C_def
      CHAR_LITERAL_C_def NUL_def)
qed

lemma deref_cstr: "deref line \<noteq> NUL \<Longrightarrow> deref (cstr line) = deref line"
  by (cases line) (simp_all add: deref_def cstr_def)

lemma blank_line_cstr:
  assumes "blank_line line"
  shows "cstr line = line"
proof -
  have "\<not> isspace NUL"
    by (simp add: isspace_def NUL_def)
  moreover from assms have "\<forall>c \<in> set line. isspace c"
    by (simp add: blank_line_def list_all_iff)
  ultimately have "\<forall>c \<in> set line. c \<noteq> NUL"
    by blast
  then show ?thesis
    by (simp add: cstr_def takeWhile_eq_all_conv)
qed

lemma take_cstr: "NUL \<notin> set (take n s) \<Longrightarrow> take n (cstr s) = take n s"
proof (induction s arbitrary: n)
  case Nil
  show ?case by (simp add: cstr_def)
next
  case (Cons c s)
  then show ?case
    by (cases n) (auto simp: cstr_def)
qed

lemma mnemonic_line_cstr:
  assumes "mnemonic_line line"
  shows "mnemonic_line (cstr line)"
proof -
  from assms obtain i where i: "i < 8" and eq: "take 3 line = take 3 (opcode_str ! i)"
    by (auto simp: mnemonic_line_def strncmp_eq_def)
  have "length opcode_str = 8" and "\<forall>m \<in> set opcode_str. take 3 m = m \<and> NUL \<notin> set m"
    by (simp_all add: opcode_str_def NUL_def)
  with i eq have "NUL \<notin> set (take 3 line)"
    by (metis nth_mem)
  then have "take 3 (cstr line) = take 3 line"
    by (rule take_cstr)
  with i eq show ?thesis
    by (auto simp: mnemonic_line_def strncmp_eq_def)
qed

lemma valid_line_cstr:
  assumes "valid_line line"
  shows "valid_line (cstr line)" and "ignored_line (cstr line) \<longleftrightarrow> \<not> counted_line line"
proof -
  from assms have first: "deref (cstr line) = deref line"
    by (intro deref_cstr valid_line_first)
  from assms show "valid_line (cstr line)"
    using blank_line_cstr [of line] mnemonic_line_cstr [of line]
    by (auto simp: valid_line_def comment_line_def label_line_def numeric_literal_line_def
        character_literal_line_def first)
  have "ignored_line (cstr line) \<longleftrightarrow> ignored_line line"
    by (simp add: ignored_line_def first)
  with valid_line_counted [OF assms] show "ignored_line (cstr line) \<longleftrightarrow> \<not> counted_line line"
    by simp
qed

text \<open>
  Claim C5, amended. When every line of the source is a valid one and fits, with its
  newline, into the 89 bytes that \<^verbatim>\<open>fgets\<close> stores in the line buffer, and the assembler
  runs to its end (it does not stop at an unknown label), then it prints as many words
  as the source has lines that are not blank, comment or label lines, the emulator finds
  that many words in the output, no line is reported as bad, and the address counter of
  the first pass ends at that number.
\<close>

theorem emitted_word_count_lines:
  assumes "\<forall>line \<in> set (source_lines fin). valid_line line \<and> length line \<le> LINE_SIZE - 1"
    and "assemble label0 junk fin = Inr (fout, warn)"
  shows "length fout = length (filter counted_line (source_lines fin)) \<and>
         mem_size (concat fout) = of_nat (length (filter counted_line (source_lines fin))) \<and>
         generate_label_table_addr label0 fin =
           of_nat (length (filter counted_line (source_lines fin))) \<and>
         warn = []"
proof -
  from assms(1) have lines: "file_lines fin = map cstr (source_lines fin)"
    by (intro file_lines_source_lines) simp
  with assms(1) have valid: "\<forall>l \<in> set (file_lines fin). valid_line l"
    by (auto intro: valid_line_cstr(1))
  have "length (filter (\<lambda>l. \<not> ignored_line l) (file_lines fin)) =
        length (filter (\<lambda>l. \<not> ignored_line (cstr l)) (source_lines fin))"
    unfolding lines by (simp add: filter_map comp_def)
  also have "filter (\<lambda>l. \<not> ignored_line (cstr l)) (source_lines fin) =
             filter counted_line (source_lines fin)"
    using assms(1) by (intro filter_cong) (simp_all add: valid_line_cstr(2))
  finally have count: "length (filter (\<lambda>l. \<not> ignored_line l) (file_lines fin)) =
      length (filter counted_line (source_lines fin))" .
  from assemble_loop_count [OF valid assms(2) [unfolded assemble_def]]
    mem_size_assemble [OF assms(2)] count
  show ?thesis
    by (simp add: generate_label_table_addr_def generate_label_table_loop_addr)
qed

theorem emitted_word_count_lines_witness:
  "list_all (\<lambda>l. valid_line l \<and> length l \<le> LINE_SIZE - 1)
     (source_lines ''LDA :five\<newline>\<newline>; load\<newline>JMP 1\<newline>:five\<newline>#0005\<newline>'') \<and>
   assemble [] (\<lambda>_. []) ''LDA :five\<newline>\<newline>; load\<newline>JMP 1\<newline>:five\<newline>#0005\<newline>'' =
     Inr ([''0002\<newline>'', ''4001\<newline>'', ''0005\<newline>''], []) \<and>
   filter counted_line (source_lines ''LDA :five\<newline>\<newline>; load\<newline>JMP 1\<newline>:five\<newline>#0005\<newline>'') =
     [''LDA :five\<newline>'', ''JMP 1\<newline>'', ''#0005\<newline>''] \<and>
   mem_size ''0002\<newline>4001\<newline>0005\<newline>'' = 3 \<and>
   generate_label_table_addr [] ''LDA :five\<newline>\<newline>; load\<newline>JMP 1\<newline>:five\<newline>#0005\<newline>'' = 3"
proof -
  let ?src = "''LDA :five\<newline>\<newline>; load\<newline>JMP 1\<newline>:five\<newline>#0005\<newline>''"
  have lines: "source_lines ?src =
      [''LDA :five\<newline>'', ''\<newline>'', ''; load\<newline>'', ''JMP 1\<newline>'', '':five\<newline>'', ''#0005\<newline>'']"
    by (simp add: NL_def)
  have "\<exists>i<8. strncmp_eq ''LDA :five\<newline>'' (opcode_str ! i) 3"
    by (rule exI [of _ 0]) (simp add: strncmp_eq_def opcode_str_def)
  then have lda: "valid_line ''LDA :five\<newline>''"
    by (simp add: valid_line_def mnemonic_line_def)
  have "\<exists>i<8. strncmp_eq ''JMP 1\<newline>'' (opcode_str ! i) 3"
    by (rule exI [of _ 4]) (simp add: strncmp_eq_def opcode_str_def)
  then have jmp: "valid_line ''JMP 1\<newline>''"
    by (simp add: valid_line_def mnemonic_line_def)
  have other: "valid_line ''\<newline>''" "valid_line ''; load\<newline>''" "valid_line '':five\<newline>''"
    "valid_line ''#0005\<newline>''"
    by (simp_all add: valid_line_def blank_line_def comment_line_def label_line_def
        numeric_literal_line_def isspace_def deref_def COMMENT_C_def LABEL_C_def
        NUM_LITERAL_C_def)
  have valid: "\<forall>line \<in> set (source_lines ?src). valid_line line \<and> length line \<le> LINE_SIZE - 1"
    unfolding lines using lda jmp other by (simp add: LINE_SIZE_def)
  have counted: "filter counted_line
      [''LDA :five\<newline>'', ''\<newline>'', ''; load\<newline>'', ''JMP 1\<newline>'', '':five\<newline>'', ''#0005\<newline>''] =
      [''LDA :five\<newline>'', ''JMP 1\<newline>'', ''#0005\<newline>'']"
    by (simp add: counted_line_def blank_line_def comment_line_def label_line_def isspace_def
        deref_def COMMENT_C_def LABEL_C_def)
  have "file_lines ?src = map cstr (source_lines ?src)"
    using valid by (intro file_lines_source_lines) simp
  then have buffers: "file_lines ?src =
      [''LDA :five\<newline>'', ''\<newline>'', ''; load\<newline>'', ''JMP 1\<newline>'', '':five\<newline>'', ''#0005\<newline>'']"
    unfolding lines by (simp add: cstr_def NUL_def)
  have run: "assemble [] (\<lambda>_. []) ?src = Inr ([''0002\<newline>'', ''4001\<newline>'', ''0005\<newline>''], [])"
    unfolding assemble_def generate_label_table_def buffers
    by (simp add: assembler_defs c_library_defs)
  from emitted_word_count_lines [OF valid run]
  have "generate_label_table_addr [] ?src = 3"
    and "mem_size ''0002\<newline>4001\<newline>0005\<newline>'' = 3"
    unfolding lines counted by simp_all
  with valid counted run show ?thesis
    unfolding lines by (simp add: list_all_iff)
qed

lemma take_line_newline: "NL \<notin> set l \<Longrightarrow> take_line (l @ NL # r) = (l @ [NL], r)"
  by (induction l) auto

lemma fgets_split_full:
  "length l = k \<Longrightarrow> NL \<notin> set l \<Longrightarrow> fgets_split k (l @ r) = (l, r)"
proof (induction l arbitrary: k)
  case Nil
  then show ?case by simp
next
  case (Cons c l)
  then obtain j where "k = Suc j" and "length l = j"
    by (cases k) auto
  with Cons show ?case
    by auto
qed

text \<open>
  Claim C5 as it is written fails in two ways. The source \<^verbatim>\<open>LDA :nope\<close> has one line,
  a valid one that counts, but the label is unknown and the assembler stops with status 1
  at that line, before it has printed a word. And a comment line of 90 characters is
  read in two parts: the source has no line that counts and no word is printed, but the
  second part, \<^verbatim>\<open>c\<close>, is counted by the first pass and reported as a bad line by the
  second, so the address counter ends at 1.
\<close>

theorem unknown_label_and_long_line:
  "list_all valid_line (source_lines ''LDA :nope\<newline>'') \<and>
   filter counted_line (source_lines ''LDA :nope\<newline>'') = [''LDA :nope\<newline>''] \<and>
   process_opcode [] ''LDA :nope\<newline>'' [] = Inl (Exit 1) \<and>
   assemble [] (\<lambda>_. []) ''LDA :nope\<newline>'' = Inl (Exit 1) \<and>
   list_all valid_line (source_lines (CHR '';'' # replicate 89 (CHR ''c'') @ [NL])) \<and>
   filter counted_line (source_lines (CHR '';'' # replicate 89 (CHR ''c'') @ [NL])) = [] \<and>
   assemble [] (\<lambda>_. []) (CHR '';'' # replicate 89 (CHR ''c'') @ [NL]) = Inr ([], [''c\<newline>'']) \<and>
   generate_label_table_addr [] (CHR '';'' # replicate 89 (CHR ''c'') @ [NL]) = 1"
proof -
  let ?long = "CHR '';'' # replicate 89 (CHR ''c'') @ [NL]"
  have lines1: "source_lines ''LDA :nope\<newline>'' = [''LDA :nope\<newline>'']"
    by (simp add: NL_def)
  have "\<exists>i<8. strncmp_eq ''LDA :nope\<newline>'' (opcode_str ! i) 3"
    by (rule exI [of _ 0]) (simp add: strncmp_eq_def opcode_str_def)
  then have valid1: "valid_line ''LDA :nope\<newline>''" and counted1: "counted_line ''LDA :nope\<newline>''"
    by (simp_all add: valid_line_def mnemonic_line_def counted_line_def blank_line_def
        comment_line_def label_line_def isspace_def deref_def COMMENT_C_def LABEL_C_def)
  have buffers1: "file_lines ''LDA :nope\<newline>'' = [''LDA :nope\<newline>'']"
    by (simp add: LINE_SIZE_def eval_nat_numeral NL_def cstr_def NUL_def)
  have op1: "process_opcode [] ''LDA :nope\<newline>'' [] = Inl (Exit 1)"
    by (simp add: process_opcode_def process_opcode_from.simps opcode_str_def c_library_defs
        LABEL_C_def)
  have run1: "assemble [] (\<lambda>_. []) ''LDA :nope\<newline>'' = Inl (Exit 1)"
    unfolding assemble_def generate_label_table_def buffers1
    by (simp add: op1 deref_def LABEL_C_def COMMENT_C_def NUM_LITERAL_C_def CHAR_LITERAL_C_def
        isspace_def)
  have "take_line ((CHR '';'' # replicate 89 (CHR ''c'')) @ NL # []) =
        ((CHR '';'' # replicate 89 (CHR ''c'')) @ [NL], [])"
    by (rule take_line_newline) (simp add: NL_def)
  then have lines2: "source_lines ?long = [?long]"
    by simp
  have valid2: "valid_line ?long" and counted2: "\<not> counted_line ?long"
    by (simp_all add: valid_line_def counted_line_def comment_line_def deref_def COMMENT_C_def)
  have split: "?long = (CHR '';'' # replicate 88 (CHR ''c'')) @ ''c\<newline>''"
    using replicate_append_same [of 88 "CHR ''c''"] replicate_Suc [of 88 "CHR ''c''"]
    by (simp add: NL_def)
  have "fgets_split (LINE_SIZE - 1) ((CHR '';'' # replicate 88 (CHR ''c'')) @ ''c\<newline>'') =
        (CHR '';'' # replicate 88 (CHR ''c''), ''c\<newline>'')"
    by (rule fgets_split_full) (simp_all add: LINE_SIZE_def NL_def)
  then have "fgets_split (LINE_SIZE - 1) ?long = (CHR '';'' # replicate 88 (CHR ''c''), ''c\<newline>'')"
    unfolding split .
  moreover have "file_lines ''c\<newline>'' = [''c\<newline>'']"
    by (simp add: LINE_SIZE_def eval_nat_numeral NL_def cstr_def NUL_def)
  ultimately have buffers2: "file_lines ?long = [CHR '';'' # replicate 88 (CHR ''c''), ''c\<newline>'']"
    by (simp add: cstr_def NUL_def takeWhile_replicate)
  have op2: "process_opcode [] ''c\<newline>'' [] = Inr None"
    by (simp add: process_opcode_def process_opcode_from.simps opcode_str_def strncmp_eq_def)
  have run2: "assemble [] (\<lambda>_. []) ?long = Inr ([], [''c\<newline>''])"
    unfolding assemble_def generate_label_table_def buffers2
    by (simp add: op2 deref_def LABEL_C_def COMMENT_C_def NUM_LITERAL_C_def CHAR_LITERAL_C_def
        isspace_def)
  have addr2: "generate_label_table_addr [] ?long = 1"
    unfolding generate_label_table_addr_def buffers2
    by (simp add: deref_def LABEL_C_def COMMENT_C_def isspace_def)
  from valid1 counted1 op1 run1 valid2 counted2 run2 addr2 show ?thesis
    unfolding lines1 lines2 by simp
qed

end
